theory Spec2Isabelle
  imports Main
begin

section \<open>The segmented sieve of Eratosthenes (\<^verbatim>\<open>src/segmented_sieve.cpp\<close>)\<close>

text \<open>
  The program is one function, \<^verbatim>\<open>segmented_sieve(int64_t limit)\<close>, which counts the
  primes up to \<^verbatim>\<open>limit\<close> and prints the count. The embedding returns the count.

  \<^item> \<^verbatim>\<open>int64_t\<close> values are modelled as \<open>int\<close>, and every arithmetic result of the loops
    is checked against the 64-bit range: signed overflow is undefined behaviour in C++,
    and the model makes it the error \<open>SignedOverflow\<close>. The argument \<^verbatim>\<open>limit\<close> is
    an \<^verbatim>\<open>int64_t\<close>, so the theorems are about limits below \<open>2 ^ 63\<close>.
  \<^item> \<^verbatim>\<open>std::vector\<close> is a list; every \<^verbatim>\<open>operator[]\<close> is checked, and an index outside
    the vector is the error \<open>OutOfRange\<close>.
  \<^item> Every loop is a \<^theory_text>\<open>partial_function\<close> in the option monad: \<open>None\<close> is a run that
    never returns, \<open>Some (Inl e)\<close> a run that stops in the error \<open>e\<close>, and
    \<open>Some (Inr v)\<close> a run that returns \<open>v\<close>.
\<close>

subsection \<open>Errors and checked primitives\<close>

datatype error = InvalidCast | SignedOverflow | OutOfRange

type_synonym 'a result = "(error + 'a) option"

definition ok :: "'a \<Rightarrow> 'a result" where
  "ok v = Some (Inr v)"

definition fail :: "error \<Rightarrow> 'a result" where
  "fail e = Some (Inl e)"

text \<open>Sequencing: \<open>check r f\<close> continues with \<open>f\<close> after a step \<open>r\<close> that cannot loop,
  \<open>after m f\<close> after a loop \<open>m\<close>. An error or a run that never returns ends the whole
  computation.\<close>

definition check :: "error + 'a \<Rightarrow> ('a \<Rightarrow> 'b result) \<Rightarrow> 'b result" where
  "check r f = (case r of Inl e \<Rightarrow> Some (Inl e) | Inr v \<Rightarrow> f v)"

definition after :: "'a result \<Rightarrow> ('a \<Rightarrow> 'b result) \<Rightarrow> 'b result" where
  "after m f = (case m of None \<Rightarrow> None | Some (Inl e) \<Rightarrow> Some (Inl e) | Some (Inr v) \<Rightarrow> f v)"

lemma check_mono [partial_function_mono]:
  assumes "\<And>y. mono_option (\<lambda>f. C y f)"
  shows "mono_option (\<lambda>f. check r (\<lambda>y. C y f))"
  unfolding check_def using assms by (cases r) (simp_all add: option.const_mono)

lemma after_mono [partial_function_mono]:
  assumes "\<And>y. mono_option (\<lambda>f. C y f)"
  shows "mono_option (\<lambda>f. after m (\<lambda>y. C y f))"
proof (cases m)
  case None
  then show ?thesis by (simp add: after_def option.const_mono)
next
  case (Some r)
  then show ?thesis unfolding after_def using assms by (cases r) (simp_all add: option.const_mono)
qed

text \<open>The value of a 64-bit signed expression, or the overflow.\<close>

definition i64 :: "int \<Rightarrow> error + int" where
  "i64 x = (if - (2 ^ 63) \<le> x \<and> x < 2 ^ 63 then Inr x else Inl SignedOverflow)"

text \<open>\<^verbatim>\<open>v[k]\<close> read and written.\<close>

definition get :: "'a list \<Rightarrow> int \<Rightarrow> error + 'a" where
  "get v k = (if 0 \<le> k \<and> k < int (length v) then Inr (v ! nat k) else Inl OutOfRange)"

definition put :: "'a list \<Rightarrow> int \<Rightarrow> 'a \<Rightarrow> error + 'a list" where
  "put v k x = (if 0 \<le> k \<and> k < int (length v) then Inr (v[nat k := x]) else Inl OutOfRange)"

subsection \<open>The square root the program computes\<close>

text \<open>
  \<^verbatim>\<open>(int64_t) std::sqrt(x)\<close> with \<^verbatim>\<open>x\<close> of type \<^verbatim>\<open>int64_t\<close> converts \<^verbatim>\<open>x\<close> to
  \<^verbatim>\<open>double\<close>, takes the square root in \<^verbatim>\<open>double\<close> and truncates the result. The
  library function is not part of the repository; it is modelled after IEEE 754 binary64
  (53-bit significand, round to nearest, ties to even, correctly rounded square root),
  in integer arithmetic:

  \<^item> \<open>isqrt\<close> is the exact integer square root, and \<open>bitlen\<close> the length of a positive
    number in bits; both are the yardsticks of the model, not code of the program.
  \<^item> \<open>to_double x\<close> is the value of \<^verbatim>\<open>(double) x\<close> for \<open>0 \<le> x\<close>: \<open>x\<close> itself when it
    fits into 53 bits, else \<open>x\<close> rounded to 53 significant bits.
  \<^item> \<open>sqrt_trunc d\<close> is the truncation of the correctly rounded square root of the
    double \<open>d\<close>: with \<open>j\<close> fraction bits the root's significand is \<open>m\<close>, the integer
    nearest to \<open>sqrt d * 2 ^ j\<close> (a tie cannot occur: \<open>m0 * m0 + m0 + 1/4\<close> is no
    integer), and the truncated root is \<open>m div 2 ^ j\<close>.
  \<^item> The square root of a negative number is a NaN, and converting a NaN to
    \<^verbatim>\<open>int64_t\<close> is undefined: the error \<open>InvalidCast\<close>.
\<close>

function isqrt :: "int \<Rightarrow> int" where
  "isqrt x = (if x \<le> 0 then 0
     else (let r = 2 * isqrt (x div 4) in if (r + 1) * (r + 1) \<le> x then r + 1 else r))"
  by pat_completeness auto
termination
  by (relation "measure nat") auto

declare isqrt.simps [simp del]

function bitlen :: "int \<Rightarrow> nat" where
  "bitlen x = (if x \<le> 0 then 0 else Suc (bitlen (x div 2)))"
  by pat_completeness auto
termination
  by (relation "measure nat") auto

declare bitlen.simps [simp del]

definition to_double :: "int \<Rightarrow> int" where
  "to_double x =
     (if bitlen x \<le> 53 then x
      else (let u = 2 ^ (bitlen x - 53); q = x div u; r = x mod u in
        if 2 * r < u then q * u
        else if u < 2 * r then (q + 1) * u
        else if even q then q * u else (q + 1) * u))"

definition sqrt_trunc :: "int \<Rightarrow> int" where
  "sqrt_trunc d =
     (if d \<le> 0 then 0
      else (let j = 53 - bitlen (isqrt d);
                m0 = isqrt (d * 4 ^ j);
                m = (if m0 * m0 + m0 < d * 4 ^ j then m0 + 1 else m0)
            in m div 2 ^ j))"

definition sqrt_i64 :: "int \<Rightarrow> error + int" where
  "sqrt_i64 x = (if x < 0 then Inl InvalidCast else Inr (sqrt_trunc (to_double x)))"

subsection \<open>The program\<close>

text \<open>\<^verbatim>\<open>const int64_t L1D_CACHE_SIZE = 32768;\<close>\<close>

definition L1D_CACHE_SIZE :: int where
  "L1D_CACHE_SIZE = 32768"

text \<open>Lines 25--26: the square root of the limit and the segment size.\<close>

definition sizing :: "int \<Rightarrow> error + int \<times> int" where
  "sizing limit =
     (case sqrt_i64 limit of Inl e \<Rightarrow> Inl e
      | Inr sqrt \<Rightarrow> Inr (sqrt, max sqrt L1D_CACHE_SIZE))"

text \<open>Lines 50--51: \<^verbatim>\<open>for (int64_t j = i * i; j <= sqrt; j += i) is_prime[j] = false;\<close>\<close>

partial_function (option) cross_off :: "int \<Rightarrow> int \<Rightarrow> int \<Rightarrow> bool list \<Rightarrow> bool list result" where
  "cross_off i sqrt j is_prime =
     (if j \<le> sqrt then
        check (put is_prime j False) (\<lambda>is_prime'.
        check (i64 (j + i)) (\<lambda>j'.
        cross_off i sqrt j' is_prime'))
      else ok is_prime)"

text \<open>Lines 48--51: the sieving primes are generated by a simple sieve of Eratosthenes,
  from the cursor \<^verbatim>\<open>i\<close> to \<^verbatim>\<open>sqrt_high\<close>.\<close>

partial_function (option) gen_sieving_primes ::
  "int \<Rightarrow> int \<Rightarrow> int \<Rightarrow> bool list \<Rightarrow> (int \<times> bool list) result" where
  "gen_sieving_primes sqrt sqrt_high i is_prime =
     (if i \<le> sqrt_high then
        check (get is_prime i) (\<lambda>b.
        if b then
          check (i64 (i * i)) (\<lambda>j.
          after (cross_off i sqrt j is_prime) (\<lambda>is_prime'.
          check (i64 (i + 2)) (\<lambda>i'.
          gen_sieving_primes sqrt sqrt_high i' is_prime')))
        else
          check (i64 (i + 2)) (\<lambda>i'.
          gen_sieving_primes sqrt sqrt_high i' is_prime))
      else ok (i, is_prime))"

text \<open>Lines 54--61: the new sieving primes and their first offsets are appended, from the
  cursor \<^verbatim>\<open>s\<close> to \<^verbatim>\<open>sqrt_high\<close>.\<close>

partial_function (option) init_sieving_primes ::
  "int \<Rightarrow> int \<Rightarrow> int \<Rightarrow> bool list \<Rightarrow> int list \<Rightarrow> int list \<Rightarrow> (int \<times> int list \<times> int list) result" where
  "init_sieving_primes sqrt_high low s is_prime primes indexes =
     (if s \<le> sqrt_high then
        check (get is_prime s) (\<lambda>b.
        if b then
          check (i64 (s * s)) (\<lambda>ss.
          check (i64 (ss - low)) (\<lambda>x.
          check (i64 (s + 2)) (\<lambda>s'.
          init_sieving_primes sqrt_high low s' is_prime (primes @ [s]) (indexes @ [x]))))
        else
          check (i64 (s + 2)) (\<lambda>s'.
          init_sieving_primes sqrt_high low s' is_prime primes indexes))
      else ok (s, primes, indexes))"

text \<open>Lines 67--68: \<^verbatim>\<open>for (int64_t k = primes[i] * 2; j < segment_size; j += k) sieve[j] = false;\<close>
  The loop leaves \<^verbatim>\<open>j\<close> to line 69.\<close>

partial_function (option) mark_multiples ::
  "int \<Rightarrow> int \<Rightarrow> int \<Rightarrow> bool list \<Rightarrow> (int \<times> bool list) result" where
  "mark_multiples k segment_size j sieve =
     (if j < segment_size then
        check (put sieve j False) (\<lambda>sieve'.
        check (i64 (j + k)) (\<lambda>j'.
        mark_multiples k segment_size j' sieve'))
      else ok (j, sieve))"

text \<open>Lines 64--70: the segment is sieved with every sieving prime; the index \<^verbatim>\<open>i\<close> is a
  \<^verbatim>\<open>std::size_t\<close>.\<close>

partial_function (option) sieve_segment ::
  "int \<Rightarrow> int list \<Rightarrow> nat \<Rightarrow> int list \<Rightarrow> bool list \<Rightarrow> (int list \<times> bool list) result" where
  "sieve_segment segment_size primes i indexes sieve =
     (if i < length primes then
        check (get indexes (int i)) (\<lambda>j.
        check (get primes (int i)) (\<lambda>p.
        check (i64 (p * 2)) (\<lambda>k.
        after (mark_multiples k segment_size j sieve) (\<lambda>(j', sieve').
        check (i64 (j' - segment_size)) (\<lambda>x.
        check (put indexes (int i) x) (\<lambda>indexes'.
        sieve_segment segment_size primes (i + 1) indexes' sieve'))))))
      else ok (indexes, sieve))"

text \<open>Lines 72--74: the primes of the segment are counted, from the cursor \<^verbatim>\<open>n\<close> to
  \<^verbatim>\<open>high\<close>.\<close>

partial_function (option) count_primes ::
  "int \<Rightarrow> int \<Rightarrow> int \<Rightarrow> bool list \<Rightarrow> int \<Rightarrow> (int \<times> int) result" where
  "count_primes high low n sieve count =
     (if n \<le> high then
        check (i64 (n - low)) (\<lambda>x.
        check (get sieve x) (\<lambda>b.
        if b then
          check (i64 (count + 1)) (\<lambda>count'.
          check (i64 (n + 2)) (\<lambda>n'.
          count_primes high low n' sieve count'))
        else
          check (i64 (n + 2)) (\<lambda>n'.
          count_primes high low n' sieve count)))
      else ok (n, count))"

text \<open>The local variables that live across the segments. The three cursors \<^verbatim>\<open>i\<close>,
  \<^verbatim>\<open>n\<close> and \<^verbatim>\<open>s\<close> of the source are the fields \<open>i_v\<close>, \<open>n_v\<close> and \<open>s_v\<close>.\<close>

record state =
  count :: int
  i_v :: int
  n_v :: int
  s_v :: int
  sieve :: "bool list"
  is_prime :: "bool list"
  primes :: "int list"
  indexes :: "int list"

text \<open>Lines 41--61, the first half of the loop body: the working sieve is refilled, the
  bounds of the segment are computed and the sieving primes are brought up to
  \<^verbatim>\<open>sqrt_high\<close>. The result is \<^verbatim>\<open>high\<close> and the state in which the marking loop
  of line 64 starts.\<close>

definition segment_init :: "int \<Rightarrow> int \<Rightarrow> int \<Rightarrow> int \<Rightarrow> state \<Rightarrow> (int \<times> state) result" where
  "segment_init limit sqrt segment_size low st =
     (let sieve' = replicate (length (sieve st)) True in
      check (i64 (low + segment_size)) (\<lambda>t.
      check (i64 (t - 1)) (\<lambda>t'.
      let high = min t' limit in
      check (sqrt_i64 high) (\<lambda>sqrt_high.
      after (gen_sieving_primes sqrt sqrt_high (i_v st) (is_prime st)) (\<lambda>(i', is_prime').
      after (init_sieving_primes sqrt_high low (s_v st) is_prime' (primes st) (indexes st))
        (\<lambda>(s', primes', indexes').
      ok (high, st\<lparr>i_v := i', s_v := s', sieve := sieve', is_prime := is_prime',
                     primes := primes', indexes := indexes'\<rparr>)))))))"

text \<open>Lines 63--74, the second half of the loop body.\<close>

definition segment_sweep :: "int \<Rightarrow> int \<Rightarrow> int \<Rightarrow> state \<Rightarrow> state result" where
  "segment_sweep segment_size low high st =
     after (sieve_segment segment_size (primes st) 0 (indexes st) (sieve st))
       (\<lambda>(indexes', sieve').
     after (count_primes high low (n_v st) sieve' (count st)) (\<lambda>(n', count').
     ok (st\<lparr>count := count', n_v := n', sieve := sieve', indexes := indexes'\<rparr>)))"

definition segment :: "int \<Rightarrow> int \<Rightarrow> int \<Rightarrow> int \<Rightarrow> state \<Rightarrow> state result" where
  "segment limit sqrt segment_size low st =
     after (segment_init limit sqrt segment_size low st) (\<lambda>(high, st').
     segment_sweep segment_size low high st')"

text \<open>Line 39: \<^verbatim>\<open>for (int64_t low = 0; low <= limit; low += segment_size)\<close>. The program
  prints the count when the loop is left; the model returns it.\<close>

partial_function (option) segments :: "int \<Rightarrow> int \<Rightarrow> int \<Rightarrow> int \<Rightarrow> state \<Rightarrow> int result" where
  "segments limit sqrt segment_size low st =
     (if low \<le> limit then
        after (segment limit sqrt segment_size low st) (\<lambda>st'.
        check (i64 (low + segment_size)) (\<lambda>low'.
        segments limit sqrt segment_size low' st'))
      else ok (count st))"

text \<open>Lines 27--37: the state before the first segment. The root is not negative and at
  most 3037000499 (lemmas \<open>csqrt_nonneg\<close> and \<open>csqrt_le_max\<close>), so \<^verbatim>\<open>sqrt + 1\<close> does not
  overflow and both sizes are sizes of vectors. \<^verbatim>\<open>sieve(segment_size)\<close> is filled with
  zeros, \<^verbatim>\<open>is_prime(sqrt + 1, true)\<close> with ones.\<close>

definition initial :: "int \<Rightarrow> int \<Rightarrow> int \<Rightarrow> state" where
  "initial limit sqrt segment_size =
     \<lparr>count = (if limit < 2 then 0 else 1), i_v = 3, n_v = 3, s_v = 3,
      sieve = replicate (nat segment_size) False,
      is_prime = replicate (nat (sqrt + 1)) True,
      primes = [], indexes = []\<rparr>"

definition segmented_sieve :: "int \<Rightarrow> int result" where
  "segmented_sieve limit =
     check (sizing limit) (\<lambda>(sqrt, segment_size).
     segments limit sqrt segment_size 0 (initial limit sqrt segment_size))"

section \<open>Specification\<close>

text \<open>The yardsticks the program is measured against. A prime is a number above 1 with no
  divisor strictly between 1 and itself; \<open>prime_count limit\<close> is the number of primes up
  to \<open>limit\<close>.\<close>

definition prime :: "int \<Rightarrow> bool" where
  "prime p \<longleftrightarrow> 1 < p \<and> (\<forall>d\<in>{2..<p}. \<not> d dvd p)"

definition prime_count :: "int \<Rightarrow> int" where
  "prime_count limit = int (length (filter prime [2..limit]))"

text \<open>\<open>next_odd b\<close> is the smallest odd number that is at least 3 and greater than \<open>b\<close>: the
  value of a cursor that started at 3 and was advanced by 2 until it passed \<open>b\<close>.
  \<open>next_mult p low\<close> is the smallest of the numbers \<open>p * p\<close>, \<open>p * p + 2 * p\<close>,
  \<open>p * p + 4 * p\<close>, ... that is at least \<open>low\<close>: the next odd multiple of an odd \<open>p\<close>
  from its square on.\<close>

definition next_odd :: "int \<Rightarrow> int" where
  "next_odd b = (if b < 3 then 3 else if odd b then b + 2 else b + 1)"

definition next_mult :: "int \<Rightarrow> int \<Rightarrow> int" where
  "next_mult p low =
     (if low \<le> p * p then p * p
      else p * p + 2 * p * ((low - p * p + 2 * p - 1) div (2 * p)))"


text \<open>The root as the program computes it, also for the proofs' convenience at negative
  arguments, where it is 0.\<close>

abbreviation root64 :: "int \<Rightarrow> int" where
  "root64 x \<equiv> sqrt_trunc (to_double x)"


text \<open>\<open>fits limit\<close>: the loop bound \<^verbatim>\<open>low + segment_size\<close> stays within 64 bits up to the
  last segment, the one that holds \<open>limit\<close>.\<close>

definition fits :: "int \<Rightarrow> bool" where
  "fits limit \<longleftrightarrow>
     (limit div max (sqrt_trunc (to_double limit)) L1D_CACHE_SIZE + 1) *
       max (sqrt_trunc (to_double limit)) L1D_CACHE_SIZE < 2 ^ 63"


text \<open>Observers of the loop. \<open>run_segments limit sqrt segment_size k\<close> is the state after
  the first \<open>k\<close> segments, and \<open>before_marking limit k\<close> is \<^verbatim>\<open>high\<close> and the state at the
  moment the marking loop of line 64 starts in segment number \<open>k\<close>, which begins at
  \<open>low = k * segment_size\<close>. Both run the functions of the program; lemma
  \<open>segments_through\<close> shows that the loop of the program passes through these states.\<close>

primrec run_segments :: "int \<Rightarrow> int \<Rightarrow> int \<Rightarrow> nat \<Rightarrow> state result" where
  "run_segments limit sqrt segment_size 0 = ok (initial limit sqrt segment_size)"
| "run_segments limit sqrt segment_size (Suc k) =
     after (run_segments limit sqrt segment_size k)
       (\<lambda>st. segment limit sqrt segment_size (int k * segment_size) st)"

definition before_marking :: "int \<Rightarrow> nat \<Rightarrow> (int \<times> state) result" where
  "before_marking limit k =
     check (sizing limit) (\<lambda>(sqrt, segment_size).
     after (run_segments limit sqrt segment_size k) (\<lambda>st.
     segment_init limit sqrt segment_size (int k * segment_size) st))"


text \<open>The offset as the specification words it (section 3, the invariant): ``the next
  multiple of \<open>p\<close> that is at least \<open>max (p * p) low\<close>, expressed relative to the segment
  start''. The definition follows the words of the specification, not the code, and is
  compared with the code in claim C2.\<close>

definition claimed_offset :: "int \<Rightarrow> int \<Rightarrow> int" where
  "claimed_offset p low =
     (if low \<le> p * p then p * p else p * p + p * ((low - p * p + p - 1) div p)) - low"


section \<open>Arithmetic of the square root\<close>


lemma isqrt_nonneg: "0 \<le> isqrt x"
proof (induction x rule: isqrt.induct)
  case (1 x)
  show ?case
  proof (cases "x \<le> 0")
    case True
    then show ?thesis by (subst isqrt.simps) simp
  next
    case False
    with 1 have "0 \<le> isqrt (x div 4)" by simp
    with False show ?thesis by (subst isqrt.simps) (simp add: Let_def)
  qed
qed

lemma isqrt_bounds:
  "0 \<le> x \<Longrightarrow> isqrt x * isqrt x \<le> x \<and> x < (isqrt x + 1) * (isqrt x + 1)"
proof (induction x rule: isqrt.induct)
  case (1 x)
  show ?case
  proof (cases "x \<le> 0")
    case True
    with 1(2) have "x = 0" by simp
    moreover have "isqrt 0 = 0" by (subst isqrt.simps) simp
    ultimately show ?thesis by simp
  next
    case False
    define r0 where "r0 = isqrt (x div 4)"
    from False 1 have ih: "r0 * r0 \<le> x div 4" "x div 4 < (r0 + 1) * (r0 + 1)"
      by (simp_all add: r0_def)
    have r0: "0 \<le> r0" by (simp add: r0_def isqrt_nonneg)
    have lo: "(2 * r0) * (2 * r0) \<le> x"
    proof -
      have "(2 * r0) * (2 * r0) = 4 * (r0 * r0)" by simp
      also have "\<dots> \<le> 4 * (x div 4)" using ih(1) by simp
      also have "\<dots> \<le> x" by simp
      finally show ?thesis .
    qed
    have hi: "x < (2 * r0 + 2) * (2 * r0 + 2)"
    proof -
      have "x div 4 + 1 \<le> (r0 + 1) * (r0 + 1)" using ih(2) by simp
      then have "4 * (x div 4) + 4 \<le> 4 * ((r0 + 1) * (r0 + 1))" by simp
      moreover have "x < 4 * (x div 4) + 4" by presburger
      moreover have "4 * ((r0 + 1) * (r0 + 1)) = (2 * r0 + 2) * (2 * r0 + 2)"
        by (simp add: algebra_simps)
      ultimately show ?thesis by simp
    qed
    have eq: "isqrt x = (if (2 * r0 + 1) * (2 * r0 + 1) \<le> x then 2 * r0 + 1 else 2 * r0)"
      using False by (subst isqrt.simps) (simp add: Let_def r0_def)
    show ?thesis
    proof (cases "(2 * r0 + 1) * (2 * r0 + 1) \<le> x")
      case True
      then have "isqrt x = 2 * r0 + 1" using eq by simp
      then show ?thesis using True hi by (simp add: algebra_simps)
    next
      case False
      then have "isqrt x = 2 * r0" using eq by simp
      then show ?thesis using False lo by (simp add: algebra_simps)
    qed
  qed
qed

lemma sq_less_imp_less:
  fixes a b :: int
  assumes "0 \<le> b" "a * a < (b + 1) * (b + 1)"
  shows "a \<le> b"
proof (rule ccontr)
  assume "\<not> a \<le> b"
  then have "b + 1 \<le> a" by simp
  then have "(b + 1) * (b + 1) \<le> a * a"
    using assms(1) by (intro mult_mono) auto
  with assms(2) show False by simp
qed

lemma isqrt_ge: "0 \<le> x \<Longrightarrow> k * k \<le> x \<Longrightarrow> k \<le> isqrt x"
  using isqrt_bounds [of x] isqrt_nonneg [of x] sq_less_imp_less [of "isqrt x" k] by linarith

lemma isqrt_le: "0 \<le> k \<Longrightarrow> x < (k + 1) * (k + 1) \<Longrightarrow> isqrt x \<le> k"
proof (cases "0 \<le> x")
  case True
  assume "0 \<le> k" "x < (k + 1) * (k + 1)"
  then show ?thesis
    using isqrt_bounds [OF True] sq_less_imp_less [of k "isqrt x"] by linarith
next
  case False
  assume "0 \<le> k"
  moreover from False have "isqrt x = 0" by (subst isqrt.simps) simp
  ultimately show ?thesis by simp
qed

lemma isqrt_unique: "0 \<le> k \<Longrightarrow> k * k \<le> x \<Longrightarrow> x < (k + 1) * (k + 1) \<Longrightarrow> isqrt x = k"
proof -
  assume a: "0 \<le> k" "k * k \<le> x" "x < (k + 1) * (k + 1)"
  have "0 \<le> x" using a(2) zero_le_square [of k] by linarith
  from isqrt_ge [OF this a(2)] isqrt_le [OF a(1) a(3)] show ?thesis by simp
qed

lemma isqrt_mono: "x \<le> y \<Longrightarrow> isqrt x \<le> isqrt y"
proof (cases "0 \<le> x")
  case True
  assume "x \<le> y"
  with True isqrt_bounds [OF True] show ?thesis by (intro isqrt_ge) auto
next
  case False
  then have "isqrt x = 0" by (subst isqrt.simps) simp
  then show ?thesis by (simp add: isqrt_nonneg)
qed

lemma bitlen_bounds: "0 < x \<Longrightarrow> 2 ^ (bitlen x - 1) \<le> x \<and> x < 2 ^ bitlen x"
proof (induction x rule: bitlen.induct)
  case (1 x)
  show ?case
  proof (cases "x = 1")
    case True
    have "bitlen (0::int) = 0" by (subst bitlen.simps) simp
    then have "bitlen 1 = 1" by (subst bitlen.simps) simp
    with True show ?thesis by simp
  next
    case False
    with 1(2) have x2: "0 < x div 2" by simp
    with 1 have ih: "2 ^ (bitlen (x div 2) - 1) \<le> x div 2" "x div 2 < 2 ^ bitlen (x div 2)"
      by simp_all
    have pos: "0 < bitlen (x div 2)" using x2 by (subst bitlen.simps) simp
    have eq: "bitlen x = Suc (bitlen (x div 2))" using 1(2) by (subst bitlen.simps) simp
    have "2 * 2 ^ (bitlen (x div 2) - 1) \<le> x" using ih(1) by presburger
    moreover have "2 * 2 ^ (bitlen (x div 2) - 1) = (2::int) ^ bitlen (x div 2)"
      using pos by (cases "bitlen (x div 2)") simp_all
    moreover have "x < 2 * 2 ^ bitlen (x div 2)" using ih(2) by presburger
    ultimately show ?thesis by (simp add: eq)
  qed
qed

lemma bitlen_pos: "0 < x \<Longrightarrow> 0 < bitlen x"
  by (subst bitlen.simps) simp

lemma bitlen_le: "x < 2 ^ n \<Longrightarrow> bitlen x \<le> n"
proof (cases "0 < x")
  case True
  assume "x < 2 ^ n"
  with bitlen_bounds [OF True] have "(2::int) ^ (bitlen x - 1) < 2 ^ n" by linarith
  then have "bitlen x - 1 < n" by simp
  then show ?thesis by simp
next
  case False
  then have "bitlen x = 0" by (subst bitlen.simps) simp
  then show ?thesis by simp
qed

lemma bitlen_ge: "2 ^ n \<le> x \<Longrightarrow> n < bitlen x"
proof -
  assume a: "2 ^ n \<le> x"
  then have "0 < x" using zero_less_power [of "2::int" n] by linarith
  with bitlen_bounds a have "(2::int) ^ n < 2 ^ bitlen x" by (meson le_less_trans)
  then show ?thesis by simp
qed

lemma bitlen_mono: "x \<le> y \<Longrightarrow> bitlen x \<le> bitlen y"
proof (cases "0 < x")
  case True
  assume "x \<le> y"
  with True bitlen_bounds [of y] have "x < 2 ^ bitlen y" by simp
  then show ?thesis by (rule bitlen_le)
next
  case False
  then have "bitlen x = 0" by (subst bitlen.simps) simp
  then show ?thesis by simp
qed


lemma sq_less_imp_less':
  fixes a b :: int
  assumes "0 \<le> b" "a * a < b * b"
  shows "a < b"
proof (rule ccontr)
  assume "\<not> a < b"
  then have "b \<le> a" by simp
  then have "b * b \<le> a * a"
    using assms(1) by (intro mult_mono) auto
  with assms(2) show False by simp
qed

lemma int_div_less:
  fixes x u c :: int
  assumes "0 < u" "x < c * u"
  shows "x div u < c"
proof -
  have "x div u * u + x mod u = x" by simp
  moreover have "0 \<le> x mod u" using assms(1) by simp
  ultimately have "x div u * u < c * u" using assms(2) by linarith
  then show ?thesis using assms(1) by (simp add: mult_less_cancel_right)
qed

lemma int_le_div:
  fixes x u c :: int
  assumes "0 < u" "c * u \<le> x"
  shows "c \<le> x div u"
proof -
  have "x div u * u + x mod u = x" by simp
  moreover have "x mod u < u" using assms(1) by simp
  ultimately have "c * u < x div u * u + u" using assms(2) by linarith
  also have "\<dots> = (x div u + 1) * u" by (simp add: algebra_simps)
  finally have "c * u < (x div u + 1) * u" .
  then have "c < x div u + 1" using assms(1) by (simp add: mult_less_cancel_right)
  then show ?thesis by simp
qed

subsection \<open>to_double\<close>

lemma to_double_small: "x < 2 ^ 53 \<Longrightarrow> to_double x = x"
  using bitlen_le [of x 53] by (simp add: to_double_def)

lemma to_double_round:
  assumes "53 < bitlen x" and "u = 2 ^ (bitlen x - 53)"
  shows "(to_double x = (x div u) * u \<and> 2 * (x mod u) \<le> u) \<or>
         (to_double x = (x div u + 1) * u \<and> u \<le> 2 * (x mod u))"
  using assms by (auto simp add: to_double_def Let_def)

lemma to_double_binade:
  assumes "0 < x"
  shows "2 ^ (bitlen x - 1) \<le> to_double x \<and> to_double x \<le> 2 ^ bitlen x"
proof (cases "bitlen x \<le> 53")
  case True
  then show ?thesis using bitlen_bounds [OF assms] by (simp add: to_double_def)
next
  case False
  define e where "e = bitlen x - 53"
  define u :: int where "u = 2 ^ e"
  have b: "bitlen x = e + 53" using False by (simp add: e_def)
  have upos: "0 < u" by (simp add: u_def)
  have p1: "(2::int) ^ (bitlen x - 1) = 2 ^ 52 * u"
    by (simp add: b u_def power_add)
  have p2: "(2::int) ^ bitlen x = 2 ^ 53 * u"
    by (simp add: b u_def power_add)
  from bitlen_bounds [OF assms] have lo: "2 ^ 52 * u \<le> x" and hi: "x < 2 ^ 53 * u"
    using p1 p2 by simp_all
  have qlo: "2 ^ 52 \<le> x div u"
    using upos lo by (rule int_le_div)
  have qhi: "x div u < 2 ^ 53"
    using upos hi by (rule int_div_less)
  have r: "to_double x = (x div u) * u \<or> to_double x = (x div u + 1) * u"
    using to_double_round [of x u] False by (auto simp add: u_def e_def)
  have "2 ^ 52 * u \<le> (x div u) * u" using qlo upos by simp
  moreover have "(x div u + 1) * u \<le> 2 ^ 53 * u" using qhi upos by simp
  moreover have "(x div u) * u \<le> (x div u + 1) * u" using upos by (simp add: algebra_simps)
  ultimately show ?thesis using r p1 p2 by auto
qed

lemma to_double_nonneg: "0 \<le> x \<Longrightarrow> 0 \<le> to_double x"
proof (cases "x = 0")
  case True
  then show ?thesis by (simp add: to_double_small)
next
  case False
  assume "0 \<le> x"
  with False have "0 < x" by simp
  from to_double_binade [OF this] show ?thesis
    using zero_le_power [of "2::int" "bitlen x - 1"] by linarith
qed

lemma to_double_mono:
  assumes "0 \<le> x" "x \<le> y"
  shows "to_double x \<le> to_double y"
proof (cases "x = 0")
  case True
  then show ?thesis using to_double_nonneg [of y] assms by (simp add: to_double_small)
next
  case False
  with assms have x: "0 < x" and y: "0 < y" by simp_all
  have bl: "bitlen x \<le> bitlen y" using assms(2) by (rule bitlen_mono)
  show ?thesis
  proof (cases "bitlen x < bitlen y")
    case True
    have "to_double x \<le> 2 ^ bitlen x" using to_double_binade [OF x] by simp
    also have "(2::int) ^ bitlen x \<le> 2 ^ (bitlen y - 1)"
      using True by (intro power_increasing) auto
    also have "\<dots> \<le> to_double y" using to_double_binade [OF y] by simp
    finally show ?thesis .
  next
    case False
    with bl have eq: "bitlen x = bitlen y" by simp
    show ?thesis
    proof (cases "bitlen x \<le> 53")
      case True
      then show ?thesis using eq assms by (simp add: to_double_def)
    next
      case False
      define u :: int where "u = 2 ^ (bitlen x - 53)"
      have upos: "0 < u" by (simp add: u_def)
      have uy: "u = 2 ^ (bitlen y - 53)" by (simp add: u_def eq)
      have q: "x div u \<le> y div u" using assms(2) upos by (intro zdiv_mono1) auto
      have dx: "to_double x = (if 2 * (x mod u) < u then (x div u) * u
          else if u < 2 * (x mod u) then (x div u + 1) * u
          else if even (x div u) then (x div u) * u else (x div u + 1) * u)"
        using False by (simp add: to_double_def Let_def u_def)
      have dy: "to_double y = (if 2 * (y mod u) < u then (y div u) * u
          else if u < 2 * (y mod u) then (y div u + 1) * u
          else if even (y div u) then (y div u) * u else (y div u + 1) * u)"
        using False eq by (simp add: to_double_def Let_def u_def)
      show ?thesis
      proof (cases "x div u < y div u")
        case True
        have "to_double x \<le> (x div u + 1) * u" using dx upos by (auto simp add: algebra_simps)
        also have "\<dots> \<le> (y div u) * u" using True upos by simp
        also have "\<dots> \<le> to_double y" using dy upos by (auto simp add: algebra_simps)
        finally show ?thesis .
      next
        case False
        with q have qe: "x div u = y div u" by simp
        have "x mod u \<le> y mod u"
        proof -
          have "x = (x div u) * u + x mod u" "y = (y div u) * u + y mod u" by simp_all
          with assms(2) qe show ?thesis by (metis add_le_cancel_left)
        qed
        then show ?thesis using dx dy qe upos by (auto simp add: algebra_simps)
      qed
    qed
  qed
qed

subsection \<open>sqrt_trunc\<close>

lemma round_div_char:
  fixes k P d D m0 :: int
  assumes k0: "0 \<le> k" and Ppos: "0 < P"
    and kb: "k * k \<le> d" "d < (k + 1) * (k + 1)"
    and D: "D = d * (P * P)"
    and m00: "0 \<le> m0" and mb: "m0 * m0 \<le> D" "D < (m0 + 1) * (m0 + 1)"
  shows "(if m0 * m0 + m0 < D then m0 + 1 else m0) div P =
         (if ((k + 1) * P - 1) * ((k + 1) * P) < D then k + 1 else k)"
proof -
  define M where "M = (k + 1) * P - 1"
  have M1: "M + 1 = (k + 1) * P" by (simp add: M_def)
  have lo: "k * P \<le> m0"
  proof -
    have "(k * P) * (k * P) = (k * k) * (P * P)" by (simp only: ac_simps)
    also have "\<dots> \<le> d * (P * P)" using kb(1) Ppos by (intro mult_right_mono) auto
    finally have "(k * P) * (k * P) < (m0 + 1) * (m0 + 1)" using mb(2) D by simp
    with m00 show ?thesis by (rule sq_less_imp_less)
  qed
  have hi: "m0 \<le> M"
  proof -
    have "d * (P * P) < ((k + 1) * (k + 1)) * (P * P)"
      using kb(2) Ppos by (intro mult_strict_right_mono) auto
    also have "\<dots> = ((k + 1) * P) * ((k + 1) * P)" by (simp only: ac_simps)
    finally have "m0 * m0 < ((k + 1) * P) * ((k + 1) * P)" using mb(1) D by simp
    moreover have "0 \<le> (k + 1) * P" using k0 Ppos by simp
    ultimately have "m0 < (k + 1) * P" by (rule sq_less_imp_less' [rotated])
    then show ?thesis by (simp add: M_def)
  qed
  have M0: "0 \<le> M" using hi m00 by simp
  have MM: "((k + 1) * P - 1) * ((k + 1) * P) = M * M + M"
    by (simp add: M_def algebra_simps)
  show ?thesis
  proof (cases "((k + 1) * P - 1) * ((k + 1) * P) < D")
    case True
    have "M * M \<le> M * M + M" using M0 by simp
    with True MM have "M * M < (m0 + 1) * (m0 + 1)" using mb(2) by linarith
    with m00 have "M \<le> m0" by (rule sq_less_imp_less)
    with hi have m0M: "m0 = M" by simp
    have "m0 * m0 + m0 < D" using True MM by (simp only: m0M)
    then have "(if m0 * m0 + m0 < D then m0 + 1 else m0) div P = (M + 1) div P"
      by (simp only: m0M if_True)
    also have "\<dots> = k + 1" using Ppos by (simp only: M1) simp
    finally show ?thesis using True by (simp only: if_True)
  next
    case False
    define m where "m = (if m0 * m0 + m0 < D then m0 + 1 else m0)"
    have mM: "m \<le> M"
    proof (cases "m0 = M")
      case True
      with False MM have "\<not> m0 * m0 + m0 < D" by simp
      then show ?thesis by (simp add: m_def True)
    next
      case False
      with hi show ?thesis by (simp add: m_def)
    qed
    have mlo: "k * P \<le> m" using lo by (simp add: m_def)
    have "m < (k + 1) * P" using mM M1 by linarith
    with Ppos have "m div P < k + 1" by (rule int_div_less)
    moreover from Ppos mlo have "k \<le> m div P" by (rule int_le_div)
    ultimately have "m div P = k" by simp
    then show ?thesis using False by (simp only: m_def if_False)
  qed
qed

lemma four_power: "(4::int) ^ n = 2 ^ n * 2 ^ n"
proof -
  have "(4::int) ^ n = (2 * 2) ^ n" by simp
  also have "\<dots> = 2 ^ n * 2 ^ n" by (rule power_mult_distrib)
  finally show ?thesis .
qed

lemma sqrt_trunc_char:
  assumes "0 < d"
  shows "sqrt_trunc d =
    (if ((isqrt d + 1) * 2 ^ (53 - bitlen (isqrt d)) - 1) * ((isqrt d + 1) * 2 ^ (53 - bitlen (isqrt d)))
          < d * (2 ^ (53 - bitlen (isqrt d)) * 2 ^ (53 - bitlen (isqrt d)))
     then isqrt d + 1 else isqrt d)"
proof -
  define P :: int where "P = 2 ^ (53 - bitlen (isqrt d))"
  define D where "D = d * (P * P)"
  have Ppos: "0 < P" by (simp add: P_def)
  have d0: "0 \<le> d" using assms by simp
  have D0: "0 \<le> D" using d0 Ppos by (simp add: D_def)
  have st: "sqrt_trunc d = (if isqrt D * isqrt D + isqrt D < D then isqrt D + 1 else isqrt D) div P"
    using assms unfolding sqrt_trunc_def Let_def four_power D_def P_def by simp
  have "(if isqrt D * isqrt D + isqrt D < D then isqrt D + 1 else isqrt D) div P =
         (if ((isqrt d + 1) * P - 1) * ((isqrt d + 1) * P) < D then isqrt d + 1 else isqrt d)"
    using isqrt_nonneg [of d] Ppos isqrt_bounds [OF d0] D_def isqrt_nonneg [of D] isqrt_bounds [OF D0]
    by (intro round_div_char) auto
  with st show ?thesis unfolding D_def P_def by simp
qed

lemma sqrt_trunc_zero: "d \<le> 0 \<Longrightarrow> sqrt_trunc d = 0"
  by (simp add: sqrt_trunc_def)

lemma isqrt_zero: "d \<le> 0 \<Longrightarrow> isqrt d = 0"
  by (subst isqrt.simps) simp

lemma sqrt_trunc_range: "isqrt d \<le> sqrt_trunc d \<and> sqrt_trunc d \<le> isqrt d + 1"
proof (cases "0 < d")
  case True
  then show ?thesis by (simp add: sqrt_trunc_char)
next
  case False
  then show ?thesis by (simp add: sqrt_trunc_zero isqrt_zero)
qed

lemma sqrt_trunc_mono:
  assumes "d \<le> d'"
  shows "sqrt_trunc d \<le> sqrt_trunc d'"
proof (cases "0 < d")
  case False
  then have "sqrt_trunc d = 0" by (simp add: sqrt_trunc_zero)
  then show ?thesis using sqrt_trunc_range [of d'] isqrt_nonneg [of d'] by simp
next
  case True
  with assms have d': "0 < d'" by simp
  have ki: "isqrt d \<le> isqrt d'" using assms by (rule isqrt_mono)
  show ?thesis
  proof (cases "isqrt d = isqrt d'")
    case False
    with ki have "isqrt d + 1 \<le> isqrt d'" by simp
    then show ?thesis using sqrt_trunc_range [of d] sqrt_trunc_range [of d'] by linarith
  next
    case eq: True
    define k where "k = isqrt d"
    define P where "P = (2::int) ^ (53 - bitlen (isqrt d))"
    define T where "T = ((k + 1) * P - 1) * ((k + 1) * P)"
    define A where "A = d * (P * P)"
    define A' where "A' = d' * (P * P)"
    have Ppos: "0 < P * P" by (simp add: P_def)
    have AA: "A \<le> A'" unfolding A_def A'_def using assms Ppos by (intro mult_right_mono) auto
    have c1: "sqrt_trunc d = (if T < A then k + 1 else k)"
      unfolding T_def A_def k_def P_def by (rule sqrt_trunc_char [OF True])
    have c2: "sqrt_trunc d' = (if T < A' then k + 1 else k)"
      unfolding T_def A'_def k_def P_def eq by (rule sqrt_trunc_char [OF d'])
    show ?thesis using c1 c2 AA by auto
  qed
qed

lemma csqrt_mono: "0 \<le> x \<Longrightarrow> x \<le> y \<Longrightarrow> sqrt_trunc (to_double x) \<le> sqrt_trunc (to_double y)"
  by (intro sqrt_trunc_mono to_double_mono)

lemma csqrt_nonneg: "0 \<le> sqrt_trunc (to_double x)"
  using sqrt_trunc_range [of "to_double x"] isqrt_nonneg [of "to_double x"] by simp

lemma csqrt_max: "sqrt_trunc (to_double (2 ^ 63 - 1)) = 3037000499"
  by code_simp

lemma csqrt_small:
  assumes "0 \<le> x" "x < 2 ^ 52"
  shows "sqrt_trunc (to_double x) = isqrt x"
proof (cases "x = 0")
  case True
  then show ?thesis by (simp add: to_double_small sqrt_trunc_zero isqrt_zero)
next
  case False
  with assms have x: "0 < x" by simp
  define k where "k = isqrt x"
  define P :: int where "P = 2 ^ (53 - bitlen (isqrt x))"
  define T where "T = ((k + 1) * P - 1) * ((k + 1) * P)"
  define A where "A = x * (P * P)"
  have td: "to_double x = x" using assms(2) by (intro to_double_small) simp
  have k0: "0 \<le> k" by (simp add: k_def isqrt_nonneg)
  have kb: "k * k \<le> x" "x < (k + 1) * (k + 1)"
    using isqrt_bounds [OF assms(1)] by (simp_all add: k_def)
  have "k * k < 67108864 * 67108864" using kb(1) assms(2) by simp
  then have k26: "k < 67108864" by (rule sq_less_imp_less' [rotated]) simp
  then have "k < 2 ^ 26" by simp
  then have "bitlen k \<le> 26" by (rule bitlen_le)
  then have "26 \<le> 53 - bitlen (isqrt x)" by (simp add: k_def)
  then have "(2::int) ^ 26 \<le> P" unfolding P_def by (intro power_increasing) auto
  then have kP: "k + 1 \<le> P" using k26 by simp
  have Ppos: "0 < P" by (simp add: P_def)
  have kPP: "(k + 1) * P \<le> P * P" using kP Ppos by (intro mult_right_mono) auto
  have "x + 1 \<le> (k + 1) * (k + 1)" using kb(2) by simp
  then have "(x + 1) * (P * P) \<le> ((k + 1) * (k + 1)) * (P * P)"
    using Ppos by (intro mult_right_mono) auto
  moreover have "(x + 1) * (P * P) = A + P * P" by (simp add: A_def algebra_simps)
  moreover have "((k + 1) * (k + 1)) * (P * P) = T + (k + 1) * P"
    by (simp add: T_def algebra_simps)
  ultimately have nT: "\<not> T < A" using kPP by linarith
  have "sqrt_trunc x = (if T < A then k + 1 else k)"
    unfolding T_def A_def k_def P_def by (rule sqrt_trunc_char [OF x])
  with nT show ?thesis by (simp only: td if_False k_def)
qed

lemma csqrt_square:
  assumes "0 \<le> k" "k * k < 2 ^ 63"
  shows "k \<le> sqrt_trunc (to_double (k * k))"
proof (cases "k * k \<le> to_double (k * k)")
  case True
  have "0 \<le> to_double (k * k)" using True zero_le_square [of k] by linarith
  then have "k \<le> isqrt (to_double (k * k))" using True by (rule isqrt_ge)
  then show ?thesis using sqrt_trunc_range [of "to_double (k * k)"] by simp
next
  case False
  define y where "y = k * k"
  define d where "d = to_double y"
  define B where "B = bitlen y"
  define b where "b = bitlen k"
  define u :: int where "u = 2 ^ (B - 53)"
  define r where "r = y mod u"
  from False have dy: "d < y" by (simp add: d_def y_def)
  have B53: "53 < B"
  proof (rule ccontr)
    assume "\<not> 53 < B"
    then have "to_double y = y" by (simp add: to_double_def B_def)
    with dy show False by (simp add: d_def)
  qed
  have upos: "0 < u" by (simp add: u_def)
  have rd: "d = y - r" "2 * r \<le> u" "0 < r"
  proof -
    from to_double_round [of y u] B53
    have c: "(d = (y div u) * u \<and> 2 * (y mod u) \<le> u) \<or> (d = (y div u + 1) * u \<and> u \<le> 2 * (y mod u))"
      by (simp add: B_def u_def d_def)
    have ydm: "y = (y div u) * u + y mod u" by simp
    have "y < (y div u + 1) * u"
    proof -
      have "y mod u < u" using upos by simp
      with ydm have "y < (y div u) * u + u" by linarith
      also have "\<dots> = (y div u + 1) * u" by (simp add: algebra_simps)
      finally show ?thesis .
    qed
    with dy c have c1: "d = (y div u) * u" "2 * (y mod u) \<le> u" by auto
    with ydm show "d = y - r" unfolding r_def by linarith
    from c1 show "2 * r \<le> u" by (simp add: r_def)
    from dy \<open>d = y - r\<close> show "0 < r" by simp
  qed
  have kpos: "0 < k"
  proof (rule ccontr)
    assume "\<not> 0 < k"
    with assms(1) have "k = 0" by simp
    then have "y = 0" by (simp add: y_def)
    then have "to_double y = y" by (simp add: to_double_small)
    with dy show False by (simp add: d_def)
  qed
  have kb: "2 ^ (b - 1) \<le> k" "k < 2 ^ b" using bitlen_bounds [OF kpos] by (simp_all add: b_def)
  have bpos: "0 < b" using bitlen_pos [OF kpos] by (simp add: b_def)
  have b32: "b \<le> 32"
  proof -
    have "k * k < 2 ^ 32 * 2 ^ 32" using assms(2) by simp
    then have "k < 2 ^ 32" by (rule sq_less_imp_less' [rotated]) simp
    then show ?thesis unfolding b_def by (rule bitlen_le)
  qed
  have B2b: "B \<le> 2 * b"
  proof -
    have "k * k < 2 ^ b * 2 ^ b" using kb(2) kpos by (intro mult_strict_mono) auto
    then have "y < 2 ^ (2 * b)" by (simp add: y_def power_add mult_2)
    then show ?thesis unfolding B_def by (rule bitlen_le)
  qed
  have k_not_pow: "2 ^ (b - 1) < k"
  proof (rule ccontr)
    assume "\<not> 2 ^ (b - 1) < k"
    with kb(1) have ke: "k = 2 ^ (b - 1)" by simp
    then have ye: "y = 2 ^ (2 * (b - 1))" by (simp add: y_def power_add mult_2)
    have "B - 53 \<le> 2 * (b - 1)" using B2b bpos B53 by simp
    then have "u dvd y" unfolding ye u_def by (rule le_imp_power_dvd)
    then have "r = 0" by (simp add: r_def)
    with rd(3) show False by simp
  qed
  have ru: "r \<le> 2 ^ (B - 54)"
  proof -
    have "u = 2 * 2 ^ (B - 54)"
    proof -
      have "B - 53 = Suc (B - 54)" using B53 by simp
      then show ?thesis by (simp add: u_def)
    qed
    with rd(2) show ?thesis by simp
  qed
  have r_small: "r \<le> 2 * k - 1"
  proof -
    have "B - 54 \<le> b - 1" using B2b b32 B53 by simp
    then have "(2::int) ^ (B - 54) \<le> 2 ^ (b - 1)" by (intro power_increasing) auto
    with ru kb(1) kpos show ?thesis by linarith
  qed
  have k1sq: "(k - 1) * (k - 1) = y - 2 * k + 1" by (simp add: y_def algebra_simps)
  have k1d: "(k - 1) * (k - 1) \<le> d" using r_small k1sq rd(1) by linarith
  have d0: "0 < d"
  proof -
    have "1 \<le> (2::int) ^ (b - 1)" by simp
    with k_not_pow have "1 < k" by linarith
    then have "0 < (k - 1) * (k - 1)" by simp
    with k1d show ?thesis by simp
  qed
  have kd: "isqrt d = k - 1"
  proof (rule isqrt_unique)
    show "0 \<le> k - 1" using kpos by simp
    show "(k - 1) * (k - 1) \<le> d" by (rule k1d)
    show "d < (k - 1 + 1) * (k - 1 + 1)" using dy by (simp add: y_def)
  qed
  have bd: "bitlen (k - 1) = b"
  proof -
    have "k - 1 < 2 ^ b" using kb(2) by linarith
    then have "bitlen (k - 1) \<le> b" by (rule bitlen_le)
    moreover have "2 ^ (b - 1) \<le> k - 1" using k_not_pow by linarith
    then have "b - 1 < bitlen (k - 1)" by (rule bitlen_ge)
    ultimately show ?thesis by simp
  qed
  define P :: int where "P = 2 ^ (53 - b)"
  have Ppos: "0 < P" by (simp add: P_def)
  have rP: "r * P < k"
  proof -
    have "r * P \<le> 2 ^ (B - 54) * 2 ^ (53 - b)" unfolding P_def using ru by (intro mult_right_mono) auto
    also have "\<dots> = 2 ^ (B - 54 + (53 - b))" by (simp add: power_add)
    also have "\<dots> \<le> 2 ^ (b - 1)" using B2b b32 B53 by (intro power_increasing) auto
    also have "\<dots> < k" by (rule k_not_pow)
    finally show ?thesis .
  qed
  define T where "T = ((k - 1 + 1) * P - 1) * ((k - 1 + 1) * P)"
  define A where "A = d * (P * P)"
  have TA: "T < A"
  proof -
    have "r * P * P < k * P" using rP Ppos by (intro mult_strict_right_mono) auto
    moreover have "T = y * (P * P) - k * P" by (simp add: T_def y_def algebra_simps)
    moreover have "A = y * (P * P) - r * P * P" by (simp add: A_def rd(1) algebra_simps)
    ultimately show ?thesis by linarith
  qed
  have "sqrt_trunc d = (if T < A then k - 1 + 1 else k - 1)"
    unfolding T_def A_def P_def kd [symmetric] bd [symmetric]
    by (rule sqrt_trunc_char [OF d0])
  with TA have "sqrt_trunc d = k" by simp
  then show ?thesis by (simp add: d_def y_def)
qed

lemma csqrt_ge:
  assumes "0 \<le> k" "k * k \<le> x" "x < 2 ^ 63"
  shows "k \<le> sqrt_trunc (to_double x)"
proof -
  have "k \<le> sqrt_trunc (to_double (k * k))" using assms by (intro csqrt_square) auto
  also have "\<dots> \<le> sqrt_trunc (to_double x)" using assms(2) by (intro csqrt_mono) auto
  finally show ?thesis .
qed

lemma csqrt_le_max:
  assumes "0 \<le> x" "x < 2 ^ 63"
  shows "sqrt_trunc (to_double x) \<le> 3037000499"
proof -
  have "sqrt_trunc (to_double x) \<le> sqrt_trunc (to_double (2 ^ 63 - 1))"
    using assms by (intro csqrt_mono) auto
  then show ?thesis by (simp only: csqrt_max)
qed

text \<open>The computed root is at most one above the integer square root.\<close>

lemma to_double_upper:
  assumes "53 < bitlen y"
  shows "to_double y \<le> y + 2 ^ (bitlen y - 54)"
proof -
  define u :: int where "u = 2 ^ (bitlen y - 53)"
  have upos: "0 < u" by (simp add: u_def)
  have u2: "u = 2 * 2 ^ (bitlen y - 54)"
  proof -
    have "bitlen y - 53 = Suc (bitlen y - 54)" using assms by simp
    then show ?thesis by (simp add: u_def)
  qed
  have ydm: "y div u * u + y mod u = y" by simp
  have m0: "0 \<le> y mod u" using upos by simp
  have "y div u * u \<le> y" using ydm m0 by linarith
  with to_double_round [OF assms u_def]
  have "to_double y \<le> y \<or> (to_double y = (y div u + 1) * u \<and> u \<le> 2 * (y mod u))"
    by metis
  then show ?thesis
  proof
    assume "to_double y \<le> y"
    moreover have "0 \<le> (2::int) ^ (bitlen y - 54)" by simp
    ultimately show ?thesis by linarith
  next
    assume a: "to_double y = (y div u + 1) * u \<and> u \<le> 2 * (y mod u)"
    have "(y div u + 1) * u = y div u * u + u" by (simp add: algebra_simps)
    with a ydm u2 show ?thesis by linarith
  qed
qed

lemma csqrt_square_upper:
  assumes "0 < n" "n \<le> 3037000500"
  shows "sqrt_trunc (to_double (n * n)) \<le> n"
proof -
  define y where "y = n * n"
  define d where "d = to_double y"
  define b where "b = bitlen n"
  define P :: int where "P = 2 ^ (53 - b)"
  have Ppos: "1 \<le> P" by (simp add: P_def)
  have nb: "n < 2 ^ b" using bitlen_bounds [OF assms(1)] by (simp add: b_def)
  have nb': "2 ^ (b - 1) \<le> n" using bitlen_bounds [OF assms(1)] by (simp add: b_def)
  have b32: "b \<le> 32"
  proof -
    have "n < 2 ^ 32" using assms(2) by simp
    then show ?thesis unfolding b_def by (rule bitlen_le)
  qed
  have ypos: "0 < y" using assms(1) by (simp add: y_def)
  have dn: "d \<le> y + n"
  proof (cases "53 < bitlen y")
    case False
    then have "d = y" by (simp add: d_def to_double_def)
    then show ?thesis using assms(1) by simp
  next
    case True
    have "n * n < 2 ^ b * 2 ^ b" using nb assms(1) by (intro mult_strict_mono) auto
    then have "y < 2 ^ (2 * b)" by (simp add: y_def power_add mult_2)
    then have B: "bitlen y \<le> 2 * b" by (rule bitlen_le)
    have "bitlen y - 54 \<le> b - 1" using B b32 True by simp
    then have "(2::int) ^ (bitlen y - 54) \<le> 2 ^ (b - 1)" by (intro power_increasing) auto
    with nb' to_double_upper [OF True] show ?thesis unfolding d_def by linarith
  qed
  show ?thesis
  proof (cases "d < y")
    case True
    then have "isqrt d < n"
    proof -
      have "isqrt d \<le> n - 1" using True assms(1) by (intro isqrt_le) (auto simp add: y_def)
      then show ?thesis by simp
    qed
    then show ?thesis using sqrt_trunc_range [of d] by (simp add: d_def y_def)
  next
    case False
    then have yd: "y \<le> d" by simp
    then have dpos: "0 < d" using ypos by simp
    have n1: "(n + 1) * (n + 1) = y + 2 * n + 1" by (simp add: y_def algebra_simps)
    have kd: "isqrt d = n"
    proof (rule isqrt_unique)
      show "0 \<le> n" using assms(1) by simp
      show "n * n \<le> d" using yd by (simp add: y_def)
      show "d < (n + 1) * (n + 1)" using dn n1 assms(1) by linarith
    qed
    define T where "T = ((n + 1) * P - 1) * ((n + 1) * P)"
    define A where "A = d * (P * P)"
    have "\<not> T < A"
    proof -
      have "A \<le> (y + n) * (P * P)" unfolding A_def using dn Ppos by (intro mult_right_mono) auto
      also have "\<dots> = y * (P * P) + n * P * P" by (simp add: algebra_simps)
      finally have a: "A \<le> y * (P * P) + n * P * P" .
      have t: "T = y * (P * P) + 2 * n * P * P + P * P - (n + 1) * P"
        by (simp add: T_def y_def algebra_simps)
      have "(n + 1) * 1 \<le> (n + 1) * P" using Ppos assms(1) by (intro mult_left_mono) auto
      then have "(n + 1) * P \<le> (n + 1) * P * P" using Ppos assms(1)
        by (metis mult.right_neutral mult_left_mono mult_nonneg_nonneg add_nonneg_nonneg
            less_imp_le zero_le_one order_trans zero_le_one)
      moreover have "(n + 1) * P * P = n * P * P + P * P" by (simp add: algebra_simps)
      moreover have "0 \<le> n * P * P" using assms(1) Ppos by simp
      ultimately show ?thesis using a t by linarith
    qed
    moreover have "sqrt_trunc d = (if T < A then n + 1 else n)"
      unfolding T_def A_def P_def b_def kd [symmetric]
      by (rule sqrt_trunc_char [OF dpos])
    ultimately show ?thesis by (simp add: d_def y_def)
  qed
qed

lemma csqrt_le:
  assumes "0 \<le> x" "x < 2 ^ 63"
  shows "sqrt_trunc (to_double x) \<le> isqrt x + 1"
proof -
  define n where "n = isqrt x + 1"
  have n0: "0 < n" using isqrt_nonneg [of x] by (simp add: n_def)
  have xn: "x < n * n" using isqrt_bounds [OF assms(1)] by (simp add: n_def)
  have "isqrt x \<le> 3037000499"
  proof (rule isqrt_le)
    show "(0::int) \<le> 3037000499" by simp
    show "x < (3037000499 + 1) * (3037000499 + 1)" using assms(2) by simp
  qed
  then have nm: "n \<le> 3037000500" by (simp add: n_def)
  have "sqrt_trunc (to_double x) \<le> sqrt_trunc (to_double (n * n))"
    using assms(1) xn by (intro csqrt_mono) auto
  also have "\<dots> \<le> n" using n0 nm by (rule csqrt_square_upper)
  finally show ?thesis by (simp add: n_def)
qed

section \<open>Primes, cursors and odd multiples\<close>

declare upto_rec_numeral [simp del]


lemma primeI: "1 < p \<Longrightarrow> (\<And>d. 1 < d \<Longrightarrow> d < p \<Longrightarrow> \<not> d dvd p) \<Longrightarrow> prime p"
  by (auto simp add: prime_def)

lemma prime_gt_1: "prime p \<Longrightarrow> 1 < p"
  by (simp add: prime_def)

lemma prime_no_divisor: "prime p \<Longrightarrow> 1 < d \<Longrightarrow> d < p \<Longrightarrow> \<not> d dvd p"
  by (simp add: prime_def)

lemma not_prime_divisor:
  assumes "1 < n" "\<not> prime n"
  shows "\<exists>d. 1 < d \<and> d < n \<and> d dvd n"
proof -
  from assms obtain d where "d \<in> {2..<n}" "d dvd n" by (auto simp add: prime_def)
  then show ?thesis by (intro exI [of _ d]) auto
qed

lemma prime_odd: "prime p \<Longrightarrow> 2 < p \<Longrightarrow> odd p"
  using prime_no_divisor [of p 2] by auto

lemma even_not_prime: "even m \<Longrightarrow> 2 < m \<Longrightarrow> \<not> prime m"
  using prime_odd by blast

lemma prime_factor_small:
  "1 < n \<Longrightarrow> \<not> prime n \<Longrightarrow> \<exists>q. prime q \<and> q dvd n \<and> q * q \<le> n"
proof (induction "nat n" arbitrary: n rule: less_induct)
  case less
  from not_prime_divisor [OF less.prems] obtain d where d: "1 < d" "d < n" "d dvd n" by blast
  then obtain c where c: "n = d * c" by (auto simp add: dvd_def)
  have cpos: "1 < c"
  proof (rule ccontr)
    assume "\<not> 1 < c"
    then have "c \<le> 1" by simp
    then have "d * c \<le> d * 1" using d(1) by (intro mult_left_mono) auto
    with c d(2) show False by simp
  qed
  define a where "a = min d c"
  have a1: "1 < a" using d(1) cpos by (simp add: a_def)
  have adv: "a dvd n" using c by (auto simp add: a_def min_def)
  have asq: "a * a \<le> n"
  proof -
    have "a * a \<le> d * c" using d(1) cpos by (intro mult_mono) (auto simp add: a_def)
    with c show ?thesis by simp
  qed
  have an: "a < n" using d(2) by (simp add: a_def)
  show ?case
  proof (cases "prime a")
    case True
    with adv asq show ?thesis by blast
  next
    case False
    have "nat a < nat n" using an a1 by simp
    from less.hyps [OF this a1 False] obtain q where q: "prime q" "q dvd a" "q * q \<le> a" by blast
    have "q dvd n" using q(2) adv by (rule dvd_trans)
    moreover have "q * q \<le> n" using q(3) an by simp
    ultimately show ?thesis using q(1) by blast
  qed
qed

lemma odd_composite_factor:
  assumes "odd n" "1 < n" "\<not> prime n"
  shows "\<exists>q. prime q \<and> 3 \<le> q \<and> q dvd n \<and> q * q \<le> n"
proof -
  from prime_factor_small [OF assms(2,3)] obtain q where q: "prime q" "q dvd n" "q * q \<le> n"
    by blast
  have "odd q" using q(2) assms(1) by (auto elim: dvdE)
  moreover have "1 < q" using q(1) by (rule prime_gt_1)
  ultimately have "3 \<le> q" by presburger
  with q show ?thesis by blast
qed

lemma multiple_not_prime:
  assumes "1 < q" "q dvd n" "q < n"
  shows "\<not> prime n"
  using assms prime_no_divisor [of n q] by blast

subsection \<open>Cursors\<close>

lemma next_odd_gt: "b < next_odd b"
  by (simp add: next_odd_def)

lemma next_odd_odd: "odd (next_odd b)"
  by (simp add: next_odd_def)

lemma next_odd_ge3: "3 \<le> next_odd b"
  by (simp add: next_odd_def)

lemma next_odd_le: "3 \<le> b \<Longrightarrow> next_odd b \<le> b + 2"
  by (simp add: next_odd_def)

lemma next_odd_step:
  "odd c \<Longrightarrow> 3 \<le> c \<Longrightarrow> c \<le> b \<Longrightarrow>
     (if c + 2 \<le> b then next_odd b else c + 2) = next_odd b"
  unfolding next_odd_def by presburger

lemma next_odd_mono_step:
  "a \<le> b \<Longrightarrow> (if next_odd a \<le> b then next_odd b else next_odd a) = next_odd b"
  unfolding next_odd_def by presburger

lemma filter_prime_step:
  assumes "odd c" "3 \<le> c" "c \<le> b"
  shows "filter prime [c..b] = (if prime c then [c] else []) @ filter prime [c + 2..b]"
proof (cases "c + 1 \<le> b")
  case True
  have "[c..b] = c # [c + 1..b]" using assms(3) by (rule upto_rec1)
  moreover have "[c + 1..b] = (c + 1) # [c + 1 + 1..b]" using True by (rule upto_rec1)
  moreover have "c + 1 + 1 = c + 2" by simp
  ultimately have "[c..b] = c # (c + 1) # [c + 2..b]" by (simp only:)
  moreover have "\<not> prime (c + 1)" using assms(1,2) by (intro even_not_prime) auto
  ultimately show ?thesis by simp
next
  case False
  with assms(3) have "b = c" by simp
  then show ?thesis by (simp add: upto_rec1 [of c c])
qed

lemma filter_prime_next_odd:
  assumes "a \<le> b"
  shows "filter prime [3..a] @ filter prime [next_odd a..b] = filter prime [3..b]"
proof (cases "a < 3")
  case True
  then show ?thesis by (simp add: next_odd_def)
next
  case False
  then have a3: "3 \<le> a" by simp
  have split: "[3..b] = [3..a] @ [a + 1..b]" using a3 assms by (rule upto_split2)
  show ?thesis
  proof (cases "odd a")
    case True
    have "filter prime [a + 1..b] = filter prime [a + 2..b]"
    proof (cases "a + 1 \<le> b")
      case True
      have "[a + 1..b] = (a + 1) # [a + 1 + 1..b]" using True by (rule upto_rec1)
      moreover have "a + 1 + 1 = a + 2" by simp
      ultimately have "[a + 1..b] = (a + 1) # [a + 2..b]" by (simp only:)
      moreover have "\<not> prime (a + 1)" using \<open>odd a\<close> a3 by (intro even_not_prime) auto
      ultimately show ?thesis by simp
    next
      case False
      then show ?thesis by simp
    qed
    then show ?thesis using True a3 by (simp add: split next_odd_def)
  next
    case False
    then show ?thesis using a3 by (simp add: split next_odd_def)
  qed
qed

subsection \<open>The next odd multiple\<close>

lemma next_mult_props:
  assumes "0 < p"
  shows "low \<le> next_mult p low" "p * p \<le> next_mult p low"
    "(2 * p) dvd (next_mult p low - p * p)"
    "next_mult p low = p * p \<or> next_mult p low - 2 * p < low"
proof -
  define k where "k = 2 * p"
  define t where "t = (low - p * p + k - 1) div k"
  have kpos: "0 < k" using assms by (simp add: k_def)
  have eq: "next_mult p low = (if low \<le> p * p then p * p else p * p + k * t)"
    by (simp add: next_mult_def k_def t_def)
  have dm: "t * k + (low - p * p + k - 1) mod k = low - p * p + k - 1" by (simp add: t_def)
  have m1: "0 \<le> (low - p * p + k - 1) mod k" and m2: "(low - p * p + k - 1) mod k < k"
    using kpos by simp_all
  have kt: "k * t = t * k" by simp
  show "low \<le> next_mult p low"
  proof (cases "low \<le> p * p")
    case True
    then show ?thesis using eq by simp
  next
    case False
    then have "next_mult p low = p * p + k * t" using eq by simp
    then show ?thesis using dm m1 m2 kt by linarith
  qed
  show "p * p \<le> next_mult p low"
  proof (cases "low \<le> p * p")
    case True
    then show ?thesis using eq by simp
  next
    case False
    then have "0 \<le> low - p * p + k - 1" using kpos by simp
    then have "0 \<le> t" using kpos by (simp add: t_def pos_imp_zdiv_nonneg_iff)
    then have "0 \<le> k * t" using kpos by simp
    then show ?thesis using eq False by simp
  qed
  show "(2 * p) dvd (next_mult p low - p * p)" using eq by (simp add: k_def)
  show "next_mult p low = p * p \<or> next_mult p low - 2 * p < low"
  proof (cases "low \<le> p * p")
    case True
    then show ?thesis using eq by simp
  next
    case False
    then have "next_mult p low = p * p + k * t" using eq by simp
    moreover have "2 * p = k" by (simp add: k_def)
    ultimately show ?thesis using dm m1 m2 kt by linarith
  qed
qed

lemma next_mult_unique:
  assumes p: "0 < p" and a: "low \<le> a" "p * p \<le> a" "(2 * p) dvd (a - p * p)"
    "a = p * p \<or> a - 2 * p < low"
  shows "a = next_mult p low"
proof -
  define b where "b = next_mult p low"
  note np = next_mult_props [OF p, of low, folded b_def]
  have dv: "(2 * p) dvd (a - b)"
  proof -
    have "a - b = (a - p * p) - (b - p * p)" by simp
    then show ?thesis using a(3) np(3) by (metis dvd_diff)
  qed
  have close: "\<bar>a - b\<bar> < 2 * p"
  proof -
    from a(4) np(4) a(1,2) np(1,2) p show ?thesis by (auto simp add: abs_less_iff)
  qed
  have "a - b = 0"
  proof (rule ccontr)
    assume "a - b \<noteq> 0"
    with dv have "\<bar>2 * p\<bar> \<le> \<bar>a - b\<bar>" by (intro dvd_imp_le_int) auto
    with close p show False by simp
  qed
  then show ?thesis by (simp add: b_def)
qed

lemma next_mult_sq: "low \<le> p * p \<Longrightarrow> next_mult p low = p * p"
  by (simp add: next_mult_def)

text \<open>Counting primes in intervals\<close>

lemma prime_count_small: "limit < 2 \<Longrightarrow> prime_count limit = 0"
  by (simp add: prime_count_def)

lemma prime_2: "prime 2"
  by (simp add: prime_def)

lemma prime_count_split:
  assumes "2 \<le> limit"
  shows "prime_count limit = 1 + int (length (filter prime [3..limit]))"
proof -
  have "[2..limit] = 2 # [3..limit]" using assms by (simp add: upto_rec1 [of 2 limit])
  then show ?thesis by (simp add: prime_count_def prime_2)
qed

lemma prime_count_mono:
  assumes "a \<le> b"
  shows "prime_count a \<le> prime_count b"
proof (cases "2 \<le> a")
  case True
  have "[2..b] = [2..a] @ [a + 1..b]" using True assms by (rule upto_split2)
  then show ?thesis by (simp add: prime_count_def)
next
  case False
  then show ?thesis by (simp add: prime_count_def)
qed

subsection \<open>Trial division, to evaluate the primality of a number\<close>

lemma int_le_square: "(d::int) \<le> d * d"
proof (cases "1 \<le> d")
  case True
  then have "d * 1 \<le> d * d" by (intro mult_left_mono) auto
  then show ?thesis by simp
next
  case False
  then have "d \<le> 0" by simp
  also have "0 \<le> d * d" by simp
  finally show ?thesis .
qed

function no_divisor_from :: "int \<Rightarrow> int \<Rightarrow> bool" where
  "no_divisor_from d p =
     (if p < d * d then True else if d dvd p then False else no_divisor_from (d + 1) p)"
  by pat_completeness auto
termination
proof (relation "measure (\<lambda>(d, p). nat (p + 1 - d))")
  show "wf (measure (\<lambda>(d, p). nat (p + 1 - d)))" by simp
  fix d p :: int
  assume "\<not> p < d * d"
  then have "d \<le> p" using int_le_square [of d] by linarith
  then show "((d + 1, p), (d, p)) \<in> measure (\<lambda>(d, p). nat (p + 1 - d))" by simp
qed

declare no_divisor_from.simps [simp del]

lemma no_divisor_from_prime:
  assumes "1 < p" "2 \<le> d" "\<And>e. 2 \<le> e \<Longrightarrow> e < d \<Longrightarrow> \<not> e dvd p"
  shows "no_divisor_from d p \<longleftrightarrow> prime p"
  using assms
proof (induction d p rule: no_divisor_from.induct)
  case (1 d p)
  show ?case
  proof (cases "p < d * d")
    case True
    have "prime p"
    proof (rule ccontr)
      assume "\<not> prime p"
      from prime_factor_small [OF 1(2) this] obtain q
        where q: "prime q" "q dvd p" "q * q \<le> p" by blast
      have "q * q < d * d" using q(3) True by simp
      moreover have "0 \<le> d" using 1(3) by simp
      ultimately have "q < d" by (rule sq_less_imp_less' [rotated])
      moreover have "2 \<le> q" using prime_gt_1 [OF q(1)] by simp
      ultimately show False using 1(4) q(2) by blast
    qed
    moreover have "no_divisor_from d p" using True by (subst no_divisor_from.simps) simp
    ultimately show ?thesis by simp
  next
    case False
    show ?thesis
    proof (cases "d dvd p")
      case True
      have "d * 2 \<le> d * d" using 1(3) by (intro mult_left_mono) auto
      then have "d < p" using False 1(3) by linarith
      then have "\<not> prime p" using True 1(3) by (intro multiple_not_prime [of d]) auto
      moreover have "\<not> no_divisor_from d p"
        using True False by (subst no_divisor_from.simps) simp
      ultimately show ?thesis by simp
    next
      case nd: False
      have "no_divisor_from (d + 1) p \<longleftrightarrow> prime p"
      proof (rule 1(1) [OF False nd 1(2)])
        show "2 \<le> d + 1" using 1(3) by simp
        fix e assume "2 \<le> e" "e < d + 1"
        then show "\<not> e dvd p" using 1(4) [of e] nd by (cases "e = d") auto
      qed
      moreover have "no_divisor_from d p = no_divisor_from (d + 1) p"
        using False nd by (subst no_divisor_from.simps) simp
      ultimately show ?thesis by simp
    qed
  qed
qed

lemma prime_code [code]: "prime p \<longleftrightarrow> 1 < p \<and> no_divisor_from 2 p"
proof (cases "1 < p")
  case True
  then show ?thesis using no_divisor_from_prime [of p 2] by auto
next
  case False
  then show ?thesis by (simp add: prime_def)
qed

lemma prime_count_examples:
  "prime_count 2 = 1" "prime_count 10 = 4" "prime_count 100 = 25"
  by code_simp+

section \<open>The loops\<close>

subsection \<open>Steps that succeed\<close>

lemma check_Inr [simp]: "check (Inr v) f = f v"
  by (simp add: check_def)

lemma check_Inl [simp]: "check (Inl e) f = fail e"
  by (simp add: check_def fail_def)

lemma after_ok [simp]: "after (ok v) f = f v"
  by (simp add: after_def ok_def)

lemma after_fail [simp]: "after (fail e) f = fail e"
  by (simp add: after_def fail_def)

lemma ok_inject [simp]: "ok a = ok b \<longleftrightarrow> a = b"
  by (simp add: ok_def)

lemma ok_not_fail [simp]: "ok a \<noteq> fail e" "fail e \<noteq> ok a"
  by (simp_all add: ok_def fail_def)

lemma fail_inject [simp]: "fail a = fail b \<longleftrightarrow> a = b"
  by (simp add: fail_def)

lemma i64_ok: "- (2 ^ 63) \<le> x \<Longrightarrow> x < 2 ^ 63 \<Longrightarrow> i64 x = Inr x"
  by (simp add: i64_def)

lemma i64_ok':
  "- 9223372036854775808 \<le> x \<Longrightarrow> x < 9223372036854775808 \<Longrightarrow> i64 x = Inr x"
  by (simp add: i64_def)

lemma get_ok: "0 \<le> k \<Longrightarrow> k < int (length v) \<Longrightarrow> get v k = Inr (v ! nat k)"
  by (simp add: get_def)

lemma put_ok: "0 \<le> k \<Longrightarrow> k < int (length v) \<Longrightarrow> put v k x = Inr (v[nat k := x])"
  by (simp add: put_def)

subsection \<open>Marking every k-th position\<close>

lemma dvd_shift:
  fixes i j m :: int
  assumes "0 < i" "m \<noteq> j"
  shows "(j + i \<le> m \<and> i dvd (m - (j + i))) \<longleftrightarrow> (j \<le> m \<and> i dvd (m - j))"
proof
  assume a: "j + i \<le> m \<and> i dvd (m - (j + i))"
  have "m - j = (m - (j + i)) + i" by simp
  then have "i dvd (m - j)" using a by (metis dvd_add dvd_refl)
  with a assms(1) show "j \<le> m \<and> i dvd (m - j)" by simp
next
  assume a: "j \<le> m \<and> i dvd (m - j)"
  with assms(2) have "0 < m - j" by simp
  with a have "i \<le> m - j" by (intro zdvd_imp_le) auto
  moreover have "m - (j + i) = (m - j) - i" by simp
  then have "i dvd (m - (j + i))" using a by (metis dvd_diff dvd_refl)
  ultimately show "j + i \<le> m \<and> i dvd (m - (j + i))" by simp
qed

lemma cross_off_correct:
  assumes "0 < i" "0 \<le> j" "sqrt < int (length ip)" "sqrt + i < 2 ^ 63"
  shows "\<exists>ip'. cross_off i sqrt j ip = ok ip' \<and> length ip' = length ip \<and>
     (\<forall>m. 0 \<le> m \<and> m < int (length ip) \<longrightarrow>
        (ip' ! nat m \<longleftrightarrow> ip ! nat m \<and> \<not> (j \<le> m \<and> m \<le> sqrt \<and> i dvd (m - j))))"
  using assms
proof (induction "nat (sqrt + 1 - j)" arbitrary: j ip rule: less_induct)
  case less
  show ?case
  proof (cases "j \<le> sqrt")
    case False
    have "cross_off i sqrt j ip = ok ip" using False by (subst cross_off.simps) simp
    then show ?thesis using False by auto
  next
    case True
    have p: "put ip j False = Inr (ip[nat j := False])"
      using True less.prems by (intro put_ok) auto
    have o: "i64 (j + i) = Inr (j + i)"
      using True less.prems by (intro i64_ok) auto
    have "\<exists>ip'. cross_off i sqrt (j + i) (ip[nat j := False]) = ok ip' \<and>
        length ip' = length (ip[nat j := False]) \<and>
        (\<forall>m. 0 \<le> m \<and> m < int (length (ip[nat j := False])) \<longrightarrow>
          (ip' ! nat m \<longleftrightarrow> (ip[nat j := False]) ! nat m \<and>
             \<not> (j + i \<le> m \<and> m \<le> sqrt \<and> i dvd (m - (j + i)))))"
      using True less.prems by (intro less.hyps) auto
    then obtain ip' where r: "cross_off i sqrt (j + i) (ip[nat j := False]) = ok ip'"
      and len: "length ip' = length ip"
      and each: "\<And>m. 0 \<le> m \<Longrightarrow> m < int (length ip) \<Longrightarrow>
          (ip' ! nat m \<longleftrightarrow> (ip[nat j := False]) ! nat m \<and>
             \<not> (j + i \<le> m \<and> m \<le> sqrt \<and> i dvd (m - (j + i))))"
      by auto
    have eq: "cross_off i sqrt j ip = ok ip'"
      using True by (subst cross_off.simps) (simp add: p o r)
    have "ip' ! nat m \<longleftrightarrow> ip ! nat m \<and> \<not> (j \<le> m \<and> m \<le> sqrt \<and> i dvd (m - j))"
      if m: "0 \<le> m" "m < int (length ip)" for m
    proof (cases "m = j")
      case True
      then show ?thesis using each [OF m] m \<open>j \<le> sqrt\<close> by simp
    next
      case False
      then have "nat m \<noteq> nat j" using m less.prems(2) by simp
      then have "(ip[nat j := False]) ! nat m = ip ! nat m" by simp
      then show ?thesis using each [OF m] dvd_shift [OF less.prems(1) False] by blast
    qed
    with eq len show ?thesis by auto
  qed
qed

lemma mark_multiples_correct:
  assumes "0 < k" "0 \<le> j" "segment_size \<le> int (length sv)" "segment_size + k < 2 ^ 63"
  shows "\<exists>j' sv'. mark_multiples k segment_size j sv = ok (j', sv') \<and> length sv' = length sv \<and>
     j \<le> j' \<and> segment_size \<le> j' \<and> k dvd (j' - j) \<and>
     (if j < segment_size then j' < segment_size + k else j' = j) \<and>
     (\<forall>x. 0 \<le> x \<and> x < int (length sv) \<longrightarrow>
        (sv' ! nat x \<longleftrightarrow> sv ! nat x \<and> \<not> (j \<le> x \<and> x < segment_size \<and> k dvd (x - j))))"
  using assms
proof (induction "nat (segment_size - j)" arbitrary: j sv rule: less_induct)
  case less
  show ?case
  proof (cases "j < segment_size")
    case False
    have "mark_multiples k segment_size j sv = ok (j, sv)"
      using False by (subst mark_multiples.simps) simp
    then show ?thesis using False by auto
  next
    case True
    have p: "put sv j False = Inr (sv[nat j := False])"
      using True less.prems by (intro put_ok) auto
    have o: "i64 (j + k) = Inr (j + k)"
      using True less.prems by (intro i64_ok) auto
    have "\<exists>j' sv'. mark_multiples k segment_size (j + k) (sv[nat j := False]) = ok (j', sv') \<and>
        length sv' = length (sv[nat j := False]) \<and>
        j + k \<le> j' \<and> segment_size \<le> j' \<and> k dvd (j' - (j + k)) \<and>
        (if j + k < segment_size then j' < segment_size + k else j' = j + k) \<and>
        (\<forall>x. 0 \<le> x \<and> x < int (length (sv[nat j := False])) \<longrightarrow>
          (sv' ! nat x \<longleftrightarrow> (sv[nat j := False]) ! nat x \<and>
             \<not> (j + k \<le> x \<and> x < segment_size \<and> k dvd (x - (j + k)))))"
      using True less.prems by (intro less.hyps) auto
    then obtain j' sv' where r: "mark_multiples k segment_size (j + k) (sv[nat j := False]) = ok (j', sv')"
      and len: "length sv' = length sv"
      and j': "j + k \<le> j'" "segment_size \<le> j'" "k dvd (j' - (j + k))"
        "if j + k < segment_size then j' < segment_size + k else j' = j + k"
      and each: "\<And>x. 0 \<le> x \<Longrightarrow> x < int (length sv) \<Longrightarrow>
          (sv' ! nat x \<longleftrightarrow> (sv[nat j := False]) ! nat x \<and>
             \<not> (j + k \<le> x \<and> x < segment_size \<and> k dvd (x - (j + k))))"
      by auto
    have eq: "mark_multiples k segment_size j sv = ok (j', sv')"
      using True by (subst mark_multiples.simps) (simp add: p o r)
    have dv: "k dvd (j' - j)"
    proof -
      have "j' - j = (j' - (j + k)) + k" by simp
      then show ?thesis using j'(3) by (metis dvd_add dvd_refl)
    qed
    have bound: "j' < segment_size + k" using j'(4) True by (auto split: if_splits)
    have "sv' ! nat x \<longleftrightarrow> sv ! nat x \<and> \<not> (j \<le> x \<and> x < segment_size \<and> k dvd (x - j))"
      if x: "0 \<le> x" "x < int (length sv)" for x
    proof (cases "x = j")
      case True
      then show ?thesis using each [OF x] x \<open>j < segment_size\<close> by simp
    next
      case False
      then have "nat x \<noteq> nat j" using x less.prems(2) by simp
      then have "(sv[nat j := False]) ! nat x = sv ! nat x" by simp
      then show ?thesis using each [OF x] dvd_shift [OF less.prems(1) False] by blast
    qed
    with eq len j'(1,2) dv bound True less.prems(1) show ?thesis by auto
  qed
qed

subsection \<open>The base sieve\<close>

definition struck :: "int \<Rightarrow> int \<Rightarrow> bool" where
  "struck i m \<longleftrightarrow> (\<exists>q. prime q \<and> 3 \<le> q \<and> q < i \<and> q * q \<le> m \<and> q dvd m)"

definition base_sieved :: "int \<Rightarrow> int \<Rightarrow> bool list \<Rightarrow> bool" where
  "base_sieved sqrt i ip \<longleftrightarrow>
     int (length ip) = sqrt + 1 \<and> (\<forall>m. 0 \<le> m \<and> m \<le> sqrt \<longrightarrow> (ip ! nat m \<longleftrightarrow> \<not> struck i m))"

lemma square_gt:
  fixes q :: int
  assumes "3 \<le> q"
  shows "q < q * q"
proof -
  have "q * 1 < q * q" using assms by (intro mult_strict_left_mono) auto
  then show ?thesis by simp
qed

lemma struck_step:
  assumes "odd i" "3 \<le> i"
  shows "struck (i + 2) m \<longleftrightarrow> struck i m \<or> (prime i \<and> i * i \<le> m \<and> i dvd m)"
proof -
  have *: "prime q \<and> 3 \<le> q \<and> q < i + 2 \<longleftrightarrow> (prime q \<and> 3 \<le> q \<and> q < i) \<or> (prime q \<and> q = i)" for q
  proof (cases "q = i + 1")
    case True
    then have "\<not> prime q" using assms by (intro even_not_prime) auto
    with True show ?thesis by auto
  next
    case False
    then show ?thesis using assms(2) by auto
  qed
  show ?thesis unfolding struck_def using * by blast
qed

lemma struck_prime_iff:
  assumes "odd s" "3 \<le> s" "s \<le> i"
  shows "\<not> struck i s \<longleftrightarrow> prime s"
proof
  assume ns: "\<not> struck i s"
  show "prime s"
  proof (rule ccontr)
    assume "\<not> prime s"
    with odd_composite_factor [of s] assms obtain q
      where q: "prime q" "3 \<le> q" "q dvd s" "q * q \<le> s" by auto
    have "q < s" using square_gt [OF q(2)] q(4) by simp
    with q assms(3) have "struck i s" unfolding struck_def by (intro exI [of _ q]) auto
    with ns show False by simp
  qed
next
  assume p: "prime s"
  show "\<not> struck i s"
  proof
    assume "struck i s"
    then obtain q where q: "prime q" "3 \<le> q" "q * q \<le> s" "q dvd s" unfolding struck_def by blast
    have "q < s" using square_gt [OF q(2)] q(3) by simp
    with p q show False using prime_no_divisor [of s q] by simp
  qed
qed

lemma square_bound:
  fixes i :: int
  assumes "0 \<le> i" "i \<le> 3037000499"
  shows "0 \<le> i * i" "i * i < 9223372036854775808"
proof -
  show "0 \<le> i * i" by simp
  have "i * i \<le> 3037000499 * 3037000499" using assms by (intro mult_mono) auto
  then show "i * i < 9223372036854775808" by simp
qed

lemma dvd_minus_square:
  fixes i m :: int
  shows "i dvd (m - i * i) \<longleftrightarrow> i dvd m"
proof
  assume "i dvd (m - i * i)"
  then have "i dvd ((m - i * i) + i * i)" by (intro dvd_add) auto
  then show "i dvd m" by simp
next
  assume "i dvd m"
  then show "i dvd (m - i * i)" by (intro dvd_diff) auto
qed

lemma gen_sieving_primes_correct:
  assumes "odd i" "3 \<le> i" "sqrt_high \<le> sqrt" "sqrt \<le> 3037000499" "base_sieved sqrt i ip"
  shows "\<exists>ip'. gen_sieving_primes sqrt sqrt_high i ip =
           ok (if i \<le> sqrt_high then next_odd sqrt_high else i, ip') \<and>
         base_sieved sqrt (if i \<le> sqrt_high then next_odd sqrt_high else i) ip'"
  using assms
proof (induction "nat (sqrt_high + 1 - i)" arbitrary: i ip rule: less_induct)
  case less
  show ?case
  proof (cases "i \<le> sqrt_high")
    case False
    have "gen_sieving_primes sqrt sqrt_high i ip = ok (i, ip)"
      using False by (subst gen_sieving_primes.simps) simp
    then show ?thesis using False less.prems(5) by auto
  next
    case True
    have len: "int (length ip) = sqrt + 1" using less.prems(5) by (simp add: base_sieved_def)
    have g: "get ip i = Inr (ip ! nat i)"
      using True less.prems len by (intro get_ok) auto
    have pi: "ip ! nat i \<longleftrightarrow> prime i"
    proof -
      have "ip ! nat i \<longleftrightarrow> \<not> struck i i"
        using less.prems True by (simp add: base_sieved_def)
      then show ?thesis using struck_prime_iff [OF less.prems(1,2), of i] by simp
    qed
    have o2: "i64 (i + 2) = Inr (i + 2)"
      using True less.prems by (intro i64_ok) auto
    have nxt: "(if i + 2 \<le> sqrt_high then next_odd sqrt_high else i + 2) = next_odd sqrt_high"
      using less.prems(1,2) True by (rule next_odd_step)
    have rec: "\<exists>ip'. gen_sieving_primes sqrt sqrt_high (i + 2) ip1 =
           ok (next_odd sqrt_high, ip') \<and> base_sieved sqrt (next_odd sqrt_high) ip'"
      if "base_sieved sqrt (i + 2) ip1" for ip1
    proof -
      have "\<exists>ip'. gen_sieving_primes sqrt sqrt_high (i + 2) ip1 =
           ok (if i + 2 \<le> sqrt_high then next_odd sqrt_high else i + 2, ip') \<and>
         base_sieved sqrt (if i + 2 \<le> sqrt_high then next_odd sqrt_high else i + 2) ip'"
        using True less.prems that by (intro less.hyps) auto
      then show ?thesis by (simp only: nxt)
    qed
    show ?thesis
    proof (cases "prime i")
      case False
      have "base_sieved sqrt (i + 2) ip"
        using less.prems(5) False by (simp add: base_sieved_def struck_step [OF less.prems(1,2)])
      from rec [OF this] obtain ip' where
        r: "gen_sieving_primes sqrt sqrt_high (i + 2) ip = ok (next_odd sqrt_high, ip')"
        and b: "base_sieved sqrt (next_odd sqrt_high) ip'" by blast
      have "gen_sieving_primes sqrt sqrt_high i ip = ok (next_odd sqrt_high, ip')"
        using True False by (subst gen_sieving_primes.simps) (simp add: g pi o2 r)
      with b True show ?thesis by auto
    next
      case prime: True
      have i0: "0 \<le> i" "i \<le> 3037000499" using less.prems True by auto
      have o1: "i64 (i * i) = Inr (i * i)"
        using square_bound [OF i0] by (intro i64_ok') linarith+
      have "\<exists>ip1. cross_off i sqrt (i * i) ip = ok ip1 \<and> length ip1 = length ip \<and>
         (\<forall>m. 0 \<le> m \<and> m < int (length ip) \<longrightarrow>
           (ip1 ! nat m \<longleftrightarrow> ip ! nat m \<and> \<not> (i * i \<le> m \<and> m \<le> sqrt \<and> i dvd (m - i * i))))"
        using less.prems True len by (intro cross_off_correct) auto
      then obtain ip1 where c: "cross_off i sqrt (i * i) ip = ok ip1"
        and len1: "length ip1 = length ip"
        and each: "\<And>m. 0 \<le> m \<Longrightarrow> m < int (length ip) \<Longrightarrow>
           (ip1 ! nat m \<longleftrightarrow> ip ! nat m \<and> \<not> (i * i \<le> m \<and> m \<le> sqrt \<and> i dvd (m - i * i)))"
        by auto
      have "base_sieved sqrt (i + 2) ip1"
        unfolding base_sieved_def
      proof (intro conjI allI impI)
        show "int (length ip1) = sqrt + 1" using len len1 by simp
        fix m assume m: "0 \<le> m \<and> m \<le> sqrt"
        then have "ip1 ! nat m \<longleftrightarrow> ip ! nat m \<and> \<not> (i * i \<le> m \<and> m \<le> sqrt \<and> i dvd (m - i * i))"
          using len by (intro each) auto
        moreover have "ip ! nat m \<longleftrightarrow> \<not> struck i m"
          using less.prems(5) m by (simp add: base_sieved_def)
        ultimately show "ip1 ! nat m \<longleftrightarrow> \<not> struck (i + 2) m"
          using m prime by (simp add: struck_step [OF less.prems(1,2)] dvd_minus_square)
      qed
      from rec [OF this] obtain ip' where
        r: "gen_sieving_primes sqrt sqrt_high (i + 2) ip1 = ok (next_odd sqrt_high, ip')"
        and b: "base_sieved sqrt (next_odd sqrt_high) ip'" by blast
      have "gen_sieving_primes sqrt sqrt_high i ip = ok (next_odd sqrt_high, ip')"
        using True prime by (subst gen_sieving_primes.simps) (simp add: g pi o1 o2 c r)
      with b True show ?thesis by auto
    qed
  qed
qed

lemma init_sieving_primes_correct:
  assumes "odd s" "3 \<le> s" "sqrt_high \<le> sqrt" "sqrt \<le> 3037000499" "base_sieved sqrt i ip"
    "sqrt_high < i" "0 \<le> low" "low < 2 ^ 63"
  shows "init_sieving_primes sqrt_high low s ip ps ix =
           ok (if s \<le> sqrt_high then next_odd sqrt_high else s,
               ps @ filter prime [s..sqrt_high],
               ix @ map (\<lambda>p. p * p - low) (filter prime [s..sqrt_high]))"
  using assms
proof (induction "nat (sqrt_high + 1 - s)" arbitrary: s ps ix rule: less_induct)
  case less
  show ?case
  proof (cases "s \<le> sqrt_high")
    case False
    then show ?thesis by (subst init_sieving_primes.simps) simp
  next
    case True
    have len: "int (length ip) = sqrt + 1" using less.prems(5) by (simp add: base_sieved_def)
    have g: "get ip s = Inr (ip ! nat s)"
      using True less.prems len by (intro get_ok) auto
    have pi: "ip ! nat s \<longleftrightarrow> prime s"
    proof -
      have "ip ! nat s \<longleftrightarrow> \<not> struck i s"
        using less.prems True by (simp add: base_sieved_def)
      moreover have "s \<le> i" using True less.prems(6) by simp
      ultimately show ?thesis using struck_prime_iff [OF less.prems(1,2), of i] by simp
    qed
    have o2: "i64 (s + 2) = Inr (s + 2)"
      using True less.prems by (intro i64_ok) auto
    have s0: "0 \<le> s" "s \<le> 3037000499" using less.prems True by auto
    have o1: "i64 (s * s) = Inr (s * s)"
      using square_bound [OF s0] by (intro i64_ok') linarith+
    have low': "low < 9223372036854775808" using less.prems(8) by simp
    have o3: "i64 (s * s - low) = Inr (s * s - low)"
      using square_bound [OF s0] less.prems(7) low' by (intro i64_ok') linarith+
    have nxt: "(if s + 2 \<le> sqrt_high then next_odd sqrt_high else s + 2) = next_odd sqrt_high"
      using less.prems(1,2) True by (rule next_odd_step)
    have fl: "filter prime [s..sqrt_high] = (if prime s then [s] else []) @ filter prime [s + 2..sqrt_high]"
      using less.prems(1,2) True by (rule filter_prime_step)
    have rec: "init_sieving_primes sqrt_high low (s + 2) ip ps1 ix1 =
           ok (next_odd sqrt_high, ps1 @ filter prime [s + 2..sqrt_high],
               ix1 @ map (\<lambda>p. p * p - low) (filter prime [s + 2..sqrt_high]))" for ps1 ix1
    proof -
      have "init_sieving_primes sqrt_high low (s + 2) ip ps1 ix1 =
           ok (if s + 2 \<le> sqrt_high then next_odd sqrt_high else s + 2,
               ps1 @ filter prime [s + 2..sqrt_high],
               ix1 @ map (\<lambda>p. p * p - low) (filter prime [s + 2..sqrt_high]))"
        using True less.prems by (intro less.hyps) auto
      then show ?thesis by (simp only: nxt)
    qed
    show ?thesis
      using True by (subst init_sieving_primes.simps) (simp add: g pi o1 o2 o3 rec fl)
  qed
qed

subsection \<open>Sieving a segment\<close>

definition carried :: "int \<Rightarrow> int \<Rightarrow> int \<Rightarrow> int \<Rightarrow> bool" where
  "carried k segment_size j x \<longleftrightarrow>
     0 \<le> x \<and> j \<le> x + segment_size \<and> k dvd (x + segment_size - j) \<and>
     (if j < segment_size then x < k else x = j - segment_size)"

lemma sieve_segment_correct:
  assumes "length ix = length ps" "segment_size \<le> int (length sv)" "0 \<le> segment_size"
    "segment_size < 2 ^ 62"
    "\<forall>t<length ps. 0 < ps ! t \<and> ps ! t \<le> 3037000499 \<and> 0 \<le> ix ! t \<and> ix ! t < 2 ^ 63"
  shows "\<exists>ix' sv'. sieve_segment segment_size ps i ix sv = ok (ix', sv') \<and>
     length ix' = length ix \<and> length sv' = length sv \<and>
     (\<forall>t<length ps. if t < i then ix' ! t = ix ! t
        else carried (2 * ps ! t) segment_size (ix ! t) (ix' ! t)) \<and>
     (\<forall>x. 0 \<le> x \<and> x < int (length sv) \<longrightarrow>
        (sv' ! nat x \<longleftrightarrow> sv ! nat x \<and>
          \<not> (\<exists>t. i \<le> t \<and> t < length ps \<and> ix ! t \<le> x \<and> x < segment_size \<and>
                 (2 * ps ! t) dvd (x - ix ! t))))"
  using assms
proof (induction "length ps - i" arbitrary: i ix sv rule: less_induct)
  case less
  show ?case
  proof (cases "i < length ps")
    case False
    have "sieve_segment segment_size ps i ix sv = ok (ix, sv)"
      using False by (subst sieve_segment.simps) simp
    then show ?thesis using False by auto
  next
    case True
    define j where "j = ix ! i"
    define p where "p = ps ! i"
    define k where "k = 2 * p"
    from less.prems(5) True have pj: "0 < p" "p \<le> 3037000499" "0 \<le> j" "j < 2 ^ 63"
      by (auto simp add: p_def j_def)
    have g1: "get ix (int i) = Inr j" using True less.prems(1) by (simp add: get_def j_def)
    have g2: "get ps (int i) = Inr p" using True by (simp add: get_def p_def)
    have o1: "i64 (p * 2) = Inr k" using pj by (simp add: i64_def k_def)
    have kpos: "0 < k" using pj by (simp add: k_def)
    have "\<exists>j' sv1. mark_multiples k segment_size j sv = ok (j', sv1) \<and> length sv1 = length sv \<and>
       j \<le> j' \<and> segment_size \<le> j' \<and> k dvd (j' - j) \<and>
       (if j < segment_size then j' < segment_size + k else j' = j) \<and>
       (\<forall>x. 0 \<le> x \<and> x < int (length sv) \<longrightarrow>
          (sv1 ! nat x \<longleftrightarrow> sv ! nat x \<and> \<not> (j \<le> x \<and> x < segment_size \<and> k dvd (x - j))))"
      using kpos pj less.prems by (intro mark_multiples_correct) (auto simp add: k_def)
    then obtain j' sv1 where m: "mark_multiples k segment_size j sv = ok (j', sv1)"
      and len1: "length sv1 = length sv"
      and j': "j \<le> j'" "segment_size \<le> j'" "k dvd (j' - j)"
        "if j < segment_size then j' < segment_size + k else j' = j"
      and each1: "\<And>x. 0 \<le> x \<Longrightarrow> x < int (length sv) \<Longrightarrow>
          (sv1 ! nat x \<longleftrightarrow> sv ! nat x \<and> \<not> (j \<le> x \<and> x < segment_size \<and> k dvd (x - j)))"
      by auto
    define x0 where "x0 = j' - segment_size"
    have x0: "0 \<le> x0" "x0 < 2 ^ 63"
      using j' pj less.prems(3,4) by (auto simp add: x0_def k_def split: if_splits)
    have car: "carried k segment_size j x0"
      using j' x0(1) by (auto simp add: carried_def x0_def split: if_splits)
    have o2: "i64 (j' - segment_size) = Inr x0" using x0 by (simp add: i64_def x0_def)
    have p1: "put ix (int i) x0 = Inr (ix[i := x0])"
      using True less.prems(1) by (simp add: put_def)
    define ix1 where "ix1 = ix[i := x0]"
    have ix1: "ix1 ! i = x0" "\<And>t. t \<noteq> i \<Longrightarrow> ix1 ! t = ix ! t" "length ix1 = length ix"
      using True less.prems(1) by (simp_all add: ix1_def)
    have pre1: "\<forall>t<length ps. 0 < ps ! t \<and> ps ! t \<le> 3037000499 \<and> 0 \<le> ix1 ! t \<and> ix1 ! t < 2 ^ 63"
    proof (intro allI impI)
      fix t assume "t < length ps"
      with less.prems(5) x0 ix1 show "0 < ps ! t \<and> ps ! t \<le> 3037000499 \<and> 0 \<le> ix1 ! t \<and> ix1 ! t < 2 ^ 63"
        by (cases "t = i") auto
    qed
    have "\<exists>ix' sv'. sieve_segment segment_size ps (i + 1) ix1 sv1 = ok (ix', sv') \<and>
       length ix' = length ix1 \<and> length sv' = length sv1 \<and>
       (\<forall>t<length ps. if t < i + 1 then ix' ! t = ix1 ! t
          else carried (2 * ps ! t) segment_size (ix1 ! t) (ix' ! t)) \<and>
       (\<forall>x. 0 \<le> x \<and> x < int (length sv1) \<longrightarrow>
          (sv' ! nat x \<longleftrightarrow> sv1 ! nat x \<and>
            \<not> (\<exists>t. i + 1 \<le> t \<and> t < length ps \<and> ix1 ! t \<le> x \<and> x < segment_size \<and>
                   (2 * ps ! t) dvd (x - ix1 ! t))))"
      using True less.prems(1-4) len1 ix1(3) pre1 by (intro less.hyps) auto
    then obtain ix' sv' where r: "sieve_segment segment_size ps (i + 1) ix1 sv1 = ok (ix', sv')"
      and len': "length ix' = length ix" "length sv' = length sv"
      and idx: "\<And>t. t < length ps \<Longrightarrow> (if t < i + 1 then ix' ! t = ix1 ! t
          else carried (2 * ps ! t) segment_size (ix1 ! t) (ix' ! t))"
      and each: "\<And>x. 0 \<le> x \<Longrightarrow> x < int (length sv) \<Longrightarrow>
          (sv' ! nat x \<longleftrightarrow> sv1 ! nat x \<and>
            \<not> (\<exists>t. i + 1 \<le> t \<and> t < length ps \<and> ix1 ! t \<le> x \<and> x < segment_size \<and>
                   (2 * ps ! t) dvd (x - ix1 ! t)))"
      using len1 ix1(3) by auto
    have r': "sieve_segment segment_size ps (Suc i) (ix[i := x0]) sv1 = ok (ix', sv')"
      using r by (simp add: ix1_def)
    have eq: "sieve_segment segment_size ps i ix sv = ok (ix', sv')"
      using True by (subst sieve_segment.simps) (simp add: g1 g2 o1 m o2 p1 r')
    have I: "if t < i then ix' ! t = ix ! t else carried (2 * ps ! t) segment_size (ix ! t) (ix' ! t)"
      if t: "t < length ps" for t
    proof (cases "t < i")
      case True
      then show ?thesis using idx [OF t] ix1(2) [of t] by simp
    next
      case False
      show ?thesis
      proof (cases "t = i")
        case True
        then show ?thesis using idx [OF t] ix1(1) car by (simp add: k_def p_def j_def)
      next
        case False
        with \<open>\<not> t < i\<close> have "i + 1 \<le> t" by simp
        then show ?thesis using idx [OF t] ix1(2) [of t] by simp
      qed
    qed
    have S: "sv' ! nat x \<longleftrightarrow> sv ! nat x \<and>
          \<not> (\<exists>t. i \<le> t \<and> t < length ps \<and> ix ! t \<le> x \<and> x < segment_size \<and>
                 (2 * ps ! t) dvd (x - ix ! t))"
      if x: "0 \<le> x" "x < int (length sv)" for x
    proof -
      have a: "(\<exists>t. i + 1 \<le> t \<and> t < length ps \<and> ix1 ! t \<le> x \<and> x < segment_size \<and>
                   (2 * ps ! t) dvd (x - ix1 ! t)) \<longleftrightarrow>
               (\<exists>t. i + 1 \<le> t \<and> t < length ps \<and> ix ! t \<le> x \<and> x < segment_size \<and>
                   (2 * ps ! t) dvd (x - ix ! t))"
        using ix1(2) by (metis Suc_eq_plus1 not_less_eq_eq order_refl)
      have b: "(\<exists>t. i \<le> t \<and> t < length ps \<and> ix ! t \<le> x \<and> x < segment_size \<and>
                   (2 * ps ! t) dvd (x - ix ! t)) \<longleftrightarrow>
               (j \<le> x \<and> x < segment_size \<and> k dvd (x - j)) \<or>
               (\<exists>t. i + 1 \<le> t \<and> t < length ps \<and> ix ! t \<le> x \<and> x < segment_size \<and>
                   (2 * ps ! t) dvd (x - ix ! t))"
        (is "?L \<longleftrightarrow> ?A \<or> ?R")
      proof
        assume ?L
        then obtain t where t: "i \<le> t" "t < length ps" "ix ! t \<le> x" "x < segment_size"
          "(2 * ps ! t) dvd (x - ix ! t)" by blast
        show "?A \<or> ?R"
        proof (cases "t = i")
          case True
          with t have ?A by (simp add: j_def k_def p_def)
          then show ?thesis ..
        next
          case False
          with t(1) have "i + 1 \<le> t" by simp
          with t have ?R by blast
          then show ?thesis ..
        qed
      next
        assume "?A \<or> ?R"
        then show ?L
        proof
          assume ?A
          with True show ?L by (intro exI [of _ i]) (simp add: j_def k_def p_def)
        next
          assume ?R
          then obtain t where "i + 1 \<le> t" "t < length ps" "ix ! t \<le> x" "x < segment_size"
            "(2 * ps ! t) dvd (x - ix ! t)" by blast
          then show ?L by (intro exI [of _ t]) simp
        qed
      qed
      show ?thesis using each [OF x] each1 [OF x] a b by blast
    qed
    from eq len' I S show ?thesis by blast
  qed
qed

lemma carried_next_mult:
  assumes "0 < p" "0 \<le> segment_size"
    and "carried (2 * p) segment_size (next_mult p low - low) x"
  shows "x = next_mult p (low + segment_size) - (low + segment_size)"
proof -
  define a where "a = x + (low + segment_size)"
  define nm where "nm = next_mult p low"
  note np = next_mult_props [OF assms(1), of low, folded nm_def]
  from assms(3) have c: "0 \<le> x" "nm - low \<le> x + segment_size"
    "(2 * p) dvd (x + segment_size - (nm - low))"
    "if nm - low < segment_size then x < 2 * p else x = nm - low - segment_size"
    by (simp_all add: carried_def nm_def)
  have "a = next_mult p (low + segment_size)"
  proof (rule next_mult_unique [OF assms(1)])
    show "low + segment_size \<le> a" using c(1) by (simp add: a_def)
    show "p * p \<le> a" using c(2) np(2) by (simp add: a_def)
    have "a - p * p = (x + segment_size - (nm - low)) + (nm - p * p)" by (simp add: a_def)
    then show "(2 * p) dvd (a - p * p)" using c(3) np(3) by (metis dvd_add)
    show "a = p * p \<or> a - 2 * p < low + segment_size"
      using c(4) np(4) assms(2) by (auto simp add: a_def split: if_splits)
  qed
  then show ?thesis by (simp add: a_def)
qed

lemma marked_iff_composite:
  assumes m: "odd m" "3 \<le> m" "low \<le> m" "m \<le> high"
    and R: "\<And>k. 0 \<le> k \<Longrightarrow> k * k \<le> high \<Longrightarrow> k \<le> R"
  shows "(\<exists>p. prime p \<and> 3 \<le> p \<and> p \<le> R \<and> next_mult p low \<le> m \<and>
             (2 * p) dvd (m - next_mult p low)) \<longleftrightarrow> \<not> prime m"
proof
  assume "\<exists>p. prime p \<and> 3 \<le> p \<and> p \<le> R \<and> next_mult p low \<le> m \<and> (2 * p) dvd (m - next_mult p low)"
  then obtain p where p: "prime p" "3 \<le> p" "next_mult p low \<le> m"
    "(2 * p) dvd (m - next_mult p low)" by blast
  have p0: "0 < p" using p(2) by simp
  note np = next_mult_props [OF p0, of low]
  have "m - p * p = (m - next_mult p low) + (next_mult p low - p * p)" by simp
  then have "(2 * p) dvd (m - p * p)" using p(4) np(3) by (metis dvd_add)
  then have "p dvd (m - p * p)" by (metis dvd_mult_right)
  then have "p dvd m" by (simp add: dvd_minus_square)
  moreover have "p < m" using square_gt [OF p(2)] np(2) p(3) by simp
  ultimately show "\<not> prime m" using p(2) by (intro multiple_not_prime [of p]) auto
next
  assume "\<not> prime m"
  with odd_composite_factor [of m] m obtain q
    where q: "prime q" "3 \<le> q" "q dvd m" "q * q \<le> m" by auto
  have q0: "0 < q" using q(2) by simp
  note np = next_mult_props [OF q0, of low]
  have qR: "q \<le> R" using q m(4) by (intro R) auto
  from q(3) obtain c where c: "m = q * c" by (auto simp add: dvd_def)
  have "odd c" using m(1) c by simp
  moreover have "odd q" using m(1) c by simp
  ultimately have "even (c - q)" by simp
  then obtain e where e: "c - q = 2 * e" by (rule evenE)
  have "m - q * q = q * (c - q)" by (simp add: c algebra_simps)
  also have "\<dots> = (2 * q) * e" by (simp add: e)
  finally have d1: "(2 * q) dvd (m - q * q)" by simp
  have "m - next_mult q low = (m - q * q) - (next_mult q low - q * q)" by simp
  then have d2: "(2 * q) dvd (m - next_mult q low)" using d1 np(3) by (metis dvd_diff)
  have "next_mult q low \<le> m"
  proof (rule ccontr)
    assume "\<not> next_mult q low \<le> m"
    then have lt: "m < next_mult q low" by simp
    with q(4) have "next_mult q low \<noteq> q * q" by simp
    with np(4) m(3) have "next_mult q low - m < 2 * q" by simp
    moreover have "(2 * q) dvd (next_mult q low - m)" using d2 by (metis dvd_minus_iff minus_diff_eq)
    moreover have "0 < next_mult q low - m" using lt by simp
    ultimately show False using zdvd_imp_le [of "2 * q" "next_mult q low - m"] by simp
  qed
  with q qR d2 show "\<exists>p. prime p \<and> 3 \<le> p \<and> p \<le> R \<and> next_mult p low \<le> m \<and>
             (2 * p) dvd (m - next_mult p low)" by blast
qed

subsection \<open>Counting\<close>

lemma count_primes_correct:
  assumes "odd n" "3 \<le> n" "low \<le> n" "0 \<le> low" "high - low < int (length sv)"
    "high < 2 ^ 63 - 1" "0 \<le> c" "c \<le> n"
    "\<forall>m. n \<le> m \<and> m \<le> high \<and> odd m \<longrightarrow> (sv ! nat (m - low) \<longleftrightarrow> prime m)"
  shows "count_primes high low n sv c =
           ok (if n \<le> high then next_odd high else n, c + int (length (filter prime [n..high])))"
  using assms
proof (induction "nat (high + 1 - n)" arbitrary: n c rule: less_induct)
  case less
  show ?case
  proof (cases "n \<le> high")
    case False
    then show ?thesis by (subst count_primes.simps) simp
  next
    case True
    have o1: "i64 (n - low) = Inr (n - low)"
      using True less.prems by (intro i64_ok) auto
    have g: "get sv (n - low) = Inr (sv ! nat (n - low))"
      using True less.prems by (intro get_ok) auto
    have b: "sv ! nat (n - low) \<longleftrightarrow> prime n" using less.prems(1,9) True by simp
    have o2: "i64 (c + 1) = Inr (c + 1)"
      using True less.prems by (intro i64_ok) auto
    have "high \<le> 9223372036854775806" using less.prems(6) by simp
    with True less.prems(1) have "n + 2 < 9223372036854775808" by presburger
    then have o3: "i64 (n + 2) = Inr (n + 2)"
      using less.prems(2) by (intro i64_ok') auto
    have nxt: "(if n + 2 \<le> high then next_odd high else n + 2) = next_odd high"
      using less.prems(1,2) True by (rule next_odd_step)
    have fl: "filter prime [n..high] = (if prime n then [n] else []) @ filter prime [n + 2..high]"
      using less.prems(1,2) True by (rule filter_prime_step)
    have rec: "count_primes high low (n + 2) sv c1 =
           ok (next_odd high, c1 + int (length (filter prime [n + 2..high])))"
      if "0 \<le> c1" "c1 \<le> n + 2" for c1
    proof -
      have "count_primes high low (n + 2) sv c1 =
           ok (if n + 2 \<le> high then next_odd high else n + 2,
               c1 + int (length (filter prime [n + 2..high])))"
        using True less.prems that by (intro less.hyps) auto
      then show ?thesis by (simp only: nxt)
    qed
    show ?thesis
    proof (cases "prime n")
      case True
      have "count_primes high low n sv c = ok (next_odd high, c + 1 + int (length (filter prime [n + 2..high])))"
        using \<open>n \<le> high\<close> True less.prems(7,8)
        by (subst count_primes.simps) (simp add: o1 g b o2 o3 rec)
      then show ?thesis using \<open>n \<le> high\<close> True by (simp add: fl)
    next
      case False
      have "count_primes high low n sv c = ok (next_odd high, c + int (length (filter prime [n + 2..high])))"
        using \<open>n \<le> high\<close> False less.prems(7,8)
        by (subst count_primes.simps) (simp add: o1 g b o3 rec)
      then show ?thesis using \<open>n \<le> high\<close> False by (simp add: fl)
    qed
  qed
qed

section \<open>The invariant of the segments\<close>

subsection \<open>One segment\<close>

lemma root64_neg: "x < 0 \<Longrightarrow> root64 x = 0"
proof -
  assume "x < 0"
  then have "bitlen x = 0" by (subst bitlen.simps) simp
  then have "to_double x = x" by (simp add: to_double_def)
  with \<open>x < 0\<close> show ?thesis by (simp add: sqrt_trunc_zero)
qed

lemma root64_mono: "x \<le> y \<Longrightarrow> root64 x \<le> root64 y"
proof (cases "0 \<le> x")
  case True
  assume "x \<le> y"
  with True show ?thesis by (rule csqrt_mono)
next
  case False
  then show ?thesis using csqrt_nonneg [of y] by (simp add: root64_neg)
qed

lemma root64_above:
  assumes "root64 x < p" "0 \<le> p" "x < 2 ^ 63"
  shows "x < p * p"
proof (rule ccontr)
  assume "\<not> x < p * p"
  then have "p * p \<le> x" by simp
  with assms(2,3) have "p \<le> root64 x" by (intro csqrt_ge) auto
  with assms(1) show False by simp
qed

definition base_count :: "int \<Rightarrow> int" where
  "base_count limit = (if limit < 2 then 0 else 1)"

definition seg_inv :: "int \<Rightarrow> int \<Rightarrow> int \<Rightarrow> int \<Rightarrow> state \<Rightarrow> bool" where
  "seg_inv limit sqrt segment_size low st \<longleftrightarrow>
     int (length (sieve st)) = segment_size \<and>
     base_sieved sqrt (next_odd (root64 (min (low - 1) limit))) (is_prime st) \<and>
     i_v st = next_odd (root64 (min (low - 1) limit)) \<and>
     s_v st = next_odd (root64 (min (low - 1) limit)) \<and>
     primes st = filter prime [3..root64 (min (low - 1) limit)] \<and>
     indexes st = map (\<lambda>p. next_mult p low - low) (filter prime [3..root64 (min (low - 1) limit)]) \<and>
     n_v st = next_odd (min (low - 1) limit) \<and>
     count st = base_count limit + int (length (filter prime [3..min (low - 1) limit]))"

definition mid_inv :: "int \<Rightarrow> int \<Rightarrow> int \<Rightarrow> int \<Rightarrow> state \<Rightarrow> bool" where
  "mid_inv limit sqrt segment_size low st \<longleftrightarrow>
     sieve st = replicate (nat segment_size) True \<and>
     base_sieved sqrt (next_odd (root64 (min (low + segment_size - 1) limit))) (is_prime st) \<and>
     i_v st = next_odd (root64 (min (low + segment_size - 1) limit)) \<and>
     s_v st = next_odd (root64 (min (low + segment_size - 1) limit)) \<and>
     primes st = filter prime [3..root64 (min (low + segment_size - 1) limit)] \<and>
     indexes st = map (\<lambda>p. next_mult p low - low)
        (filter prime [3..root64 (min (low + segment_size - 1) limit)]) \<and>
     n_v st = next_odd (min (low - 1) limit) \<and>
     count st = base_count limit + int (length (filter prime [3..min (low - 1) limit]))"

lemma sizes_facts:
  assumes "0 \<le> limit" "limit < 2 ^ 63" "sqrt = root64 limit"
    "segment_size = max sqrt L1D_CACHE_SIZE"
  shows "0 \<le> sqrt" "sqrt \<le> 3037000499" "32768 \<le> segment_size" "segment_size \<le> 3037000499"
    "sqrt \<le> segment_size"
proof -
  show "0 \<le> sqrt" using assms(3) by (simp add: csqrt_nonneg)
  show s: "sqrt \<le> 3037000499" using assms(1-3) by (simp add: csqrt_le_max)
  show "32768 \<le> segment_size" using assms(4) by (simp add: L1D_CACHE_SIZE_def)
  show "segment_size \<le> 3037000499" using assms(4) s by (simp add: L1D_CACHE_SIZE_def)
  show "sqrt \<le> segment_size" using assms(4) by simp
qed

lemma segment_init_overflow:
  assumes "0 \<le> low" "0 \<le> segment_size" "2 ^ 63 \<le> low + segment_size"
  shows "segment_init limit sqrt segment_size low st = fail SignedOverflow"
  using assms by (simp add: segment_init_def i64_def)

lemma segment_init_correct:
  assumes lim: "0 \<le> limit" "limit < 2 ^ 63" and sq: "sqrt = root64 limit"
    and sz: "segment_size = max sqrt L1D_CACHE_SIZE"
    and low: "0 \<le> low" "low \<le> limit" "low + segment_size < 2 ^ 63"
    and inv: "seg_inv limit sqrt segment_size low st"
  shows "\<exists>st1. segment_init limit sqrt segment_size low st =
           ok (min (low + segment_size - 1) limit, st1) \<and>
         mid_inv limit sqrt segment_size low st1"
proof -
  note sf = sizes_facts [OF lim sq sz]
  define ph where "ph = min (low - 1) limit"
  define high where "high = min (low + segment_size - 1) limit"
  define R where "R = root64 ph"
  define R' where "R' = root64 high"
  have ph: "ph = low - 1" using low(2) by (simp add: ph_def)
  have phh: "ph \<le> high" using sf(3) by (simp add: ph_def high_def)
  have high0: "0 \<le> high" "high \<le> limit" "high < 2 ^ 63"
    using low lim sf(3) by (simp_all add: high_def)
  have RR: "R \<le> R'" unfolding R_def R'_def using phh by (rule root64_mono)
  have R's: "R' \<le> sqrt" unfolding R'_def sq using high0(2) by (rule root64_mono)
  from inv have i: "int (length (sieve st)) = segment_size"
    "base_sieved sqrt (next_odd R) (is_prime st)"
    "i_v st = next_odd R" "s_v st = next_odd R"
    "primes st = filter prime [3..R]"
    "indexes st = map (\<lambda>p. next_mult p low - low) (filter prime [3..R])"
    "n_v st = next_odd ph"
    "count st = base_count limit + int (length (filter prime [3..ph]))"
    by (simp_all add: seg_inv_def R_def ph_def)
  have o1: "i64 (low + segment_size) = Inr (low + segment_size)"
    using low sf(3) by (intro i64_ok) auto
  have o2: "i64 (low + segment_size - 1) = Inr (low + segment_size - 1)"
    using low sf(3) by (intro i64_ok) auto
  have o3: "sqrt_i64 high = Inr R'" using high0(1) by (simp add: sqrt_i64_def R'_def)
  have nxt: "(if next_odd R \<le> R' then next_odd R' else next_odd R) = next_odd R'"
    using RR by (rule next_odd_mono_step)
  have "\<exists>ip'. gen_sieving_primes sqrt R' (next_odd R) (is_prime st) =
           ok (if next_odd R \<le> R' then next_odd R' else next_odd R, ip') \<and>
         base_sieved sqrt (if next_odd R \<le> R' then next_odd R' else next_odd R) ip'"
    using R's sf(2) i(2) by (intro gen_sieving_primes_correct) (auto simp add: next_odd_odd next_odd_ge3)
  then obtain ip' where g: "gen_sieving_primes sqrt R' (next_odd R) (is_prime st) = ok (next_odd R', ip')"
    and b: "base_sieved sqrt (next_odd R') ip'"
    unfolding nxt by blast
  have low63: "low < 2 ^ 63" using low(3) sf(3) by simp
  have "init_sieving_primes R' low (next_odd R) ip' (primes st) (indexes st) =
           ok (if next_odd R \<le> R' then next_odd R' else next_odd R,
               primes st @ filter prime [next_odd R..R'],
               indexes st @ map (\<lambda>p. p * p - low) (filter prime [next_odd R..R']))"
    using R's sf(2) b low(1) low63 next_odd_gt [of R']
    by (intro init_sieving_primes_correct [where i = "next_odd R'" and sqrt = sqrt])
       (auto simp add: next_odd_odd next_odd_ge3)
  then have ini: "init_sieving_primes R' low (next_odd R) ip' (primes st) (indexes st) =
           ok (next_odd R', primes st @ filter prime [next_odd R..R'],
               indexes st @ map (\<lambda>p. p * p - low) (filter prime [next_odd R..R']))"
    unfolding nxt .
  have pr: "primes st @ filter prime [next_odd R..R'] = filter prime [3..R']"
    unfolding i(5) using RR by (rule filter_prime_next_odd)
  have new: "p * p - low = next_mult p low - low" if "p \<in> set (filter prime [next_odd R..R'])" for p
  proof -
    from that have p: "next_odd R \<le> p" by simp
    then have Rp: "R < p" using next_odd_gt [of R] by simp
    have p0: "0 \<le> p" using p next_odd_ge3 [of R] by simp
    have "ph < p * p"
      using Rp p0 low63 unfolding R_def ph by (intro root64_above) auto
    then have "low \<le> p * p" by (simp add: ph)
    then show ?thesis by (simp add: next_mult_sq)
  qed
  have "map (\<lambda>p. p * p - low) (filter prime [next_odd R..R']) =
        map (\<lambda>p. next_mult p low - low) (filter prime [next_odd R..R'])"
    by (rule map_cong [OF refl]) (rule new)
  then have ix: "indexes st @ map (\<lambda>p. p * p - low) (filter prime [next_odd R..R']) =
        map (\<lambda>p. next_mult p low - low) (filter prime [3..R'])"
    unfolding i(6) pr [symmetric] i(5) by simp
  define st1 where "st1 = st\<lparr>i_v := next_odd R', s_v := next_odd R',
      sieve := replicate (length (sieve st)) True, is_prime := ip',
      primes := filter prime [3..R'],
      indexes := map (\<lambda>p. next_mult p low - low) (filter prime [3..R'])\<rparr>"
  have "segment_init limit sqrt segment_size low st = ok (high, st1)"
    unfolding segment_init_def Let_def
    by (simp add: o1 o2 o3 [unfolded high_def] i(3,4) g [unfolded R'_def high_def]
        ini [unfolded R'_def high_def] pr [unfolded R'_def high_def] ix [unfolded R'_def high_def]
        st1_def R'_def high_def)
  moreover have "mid_inv limit sqrt segment_size low st1"
    using i b sf(3) unfolding mid_inv_def
    by (simp add: st1_def R'_def high_def ph_def [symmetric])
  ultimately show ?thesis unfolding high_def by blast
qed

lemma length_filter_upto: "int (length (filter P [a..b])) \<le> max 0 (b - a + 1)"
proof -
  have "length (filter P [a..b]) \<le> length [a..b]" by (rule length_filter_le)
  then show ?thesis by simp
qed

lemma segment_sweep_correct:
  assumes lim: "0 \<le> limit" "limit < 2 ^ 63" and sq: "sqrt = root64 limit"
    and sz: "segment_size = max sqrt L1D_CACHE_SIZE"
    and low: "0 \<le> low" "low \<le> limit" "low + segment_size < 2 ^ 63"
    and inv: "mid_inv limit sqrt segment_size low st"
  shows "\<exists>st'. segment_sweep segment_size low (min (low + segment_size - 1) limit) st = ok st' \<and>
         seg_inv limit sqrt segment_size (low + segment_size) st'"
proof -
  note sf = sizes_facts [OF lim sq sz]
  define ph where "ph = min (low - 1) limit"
  define high where "high = min (low + segment_size - 1) limit"
  define R where "R = root64 high"
  define ps where "ps = filter prime [3..R]"
  define ix where "ix = map (\<lambda>p. next_mult p low - low) ps"
  define sv where "sv = replicate (nat segment_size) True"
  define n where "n = next_odd ph"
  have ph: "ph = low - 1" using low(2) by (simp add: ph_def)
  have phh: "ph \<le> high" using sf(3) by (simp add: ph_def high_def)
  have high0: "0 \<le> high" "high \<le> limit" "high < 2 ^ 63" "low \<le> high" "high < low + segment_size"
    using low lim sf(3) by (simp_all add: high_def)
  have Rs: "R \<le> sqrt" unfolding R_def sq using high0(2) by (rule root64_mono)
  from inv have i: "sieve st = sv"
    "base_sieved sqrt (next_odd R) (is_prime st)"
    "i_v st = next_odd R" "s_v st = next_odd R"
    "primes st = ps" "indexes st = ix" "n_v st = n"
    "count st = base_count limit + int (length (filter prime [3..ph]))"
    by (simp_all add: mid_inv_def R_def ph_def high_def ps_def ix_def sv_def n_def)
  have psP: "prime p \<and> 3 \<le> p \<and> p \<le> R" if "p \<in> set ps" for p
    using that by (simp add: ps_def)
  have nth_ps: "ps ! t \<in> set ps" if "t < length ps" for t using that by simp
  have nth_ix: "ix ! t = next_mult (ps ! t) low - low" if "t < length ps" for t
    using that by (simp add: ix_def)
  have pre: "\<forall>t<length ps. 0 < ps ! t \<and> ps ! t \<le> 3037000499 \<and> 0 \<le> ix ! t \<and> ix ! t < 2 ^ 63"
  proof (intro allI impI)
    fix t assume t: "t < length ps"
    define p where "p = ps ! t"
    from psP [OF nth_ps [OF t]] have p: "prime p" "3 \<le> p" "p \<le> R" by (simp_all add: p_def)
    have p0: "0 < p" using p(2) by simp
    have pm: "p \<le> 3037000499" using p(3) Rs sf(2) by simp
    note np = next_mult_props [OF p0, of low]
    have sqb: "p * p < 9223372036854775808" using p0 pm by (intro square_bound) auto
    have "next_mult p low - low < 9223372036854775808"
      using np(4) sqb low(1) pm by auto
    then show "0 < ps ! t \<and> ps ! t \<le> 3037000499 \<and> 0 \<le> ix ! t \<and> ix ! t < 2 ^ 63"
      using p0 pm np(1) nth_ix [OF t] by (simp add: p_def)
  qed
  have "\<exists>ix' sv'. sieve_segment segment_size ps 0 ix sv = ok (ix', sv') \<and>
     length ix' = length ix \<and> length sv' = length sv \<and>
     (\<forall>t<length ps. if t < 0 then ix' ! t = ix ! t
        else carried (2 * ps ! t) segment_size (ix ! t) (ix' ! t)) \<and>
     (\<forall>x. 0 \<le> x \<and> x < int (length sv) \<longrightarrow>
        (sv' ! nat x \<longleftrightarrow> sv ! nat x \<and>
          \<not> (\<exists>t. 0 \<le> t \<and> t < length ps \<and> ix ! t \<le> x \<and> x < segment_size \<and>
                 (2 * ps ! t) dvd (x - ix ! t))))"
    using sf(3,4) pre by (intro sieve_segment_correct) (auto simp add: ix_def sv_def)
  then obtain ix' sv' where s: "sieve_segment segment_size ps 0 ix sv = ok (ix', sv')"
    and len: "length ix' = length ps" "int (length sv') = segment_size"
    and car: "\<And>t. t < length ps \<Longrightarrow> carried (2 * ps ! t) segment_size (ix ! t) (ix' ! t)"
    and each: "\<And>x. 0 \<le> x \<Longrightarrow> x < segment_size \<Longrightarrow>
        (sv' ! nat x \<longleftrightarrow>
          \<not> (\<exists>t. t < length ps \<and> ix ! t \<le> x \<and> (2 * ps ! t) dvd (x - ix ! t)))"
    using sf(3) by (auto simp add: ix_def sv_def)
  have ix': "ix' = map (\<lambda>p. next_mult p (low + segment_size) - (low + segment_size)) ps"
  proof (rule nth_equalityI)
    show "length ix' = length (map (\<lambda>p. next_mult p (low + segment_size) - (low + segment_size)) ps)"
      using len(1) by simp
    fix t assume "t < length ix'"
    then have t: "t < length ps" using len(1) by simp
    have p0: "0 < ps ! t" using pre t by simp
    have "ix' ! t = next_mult (ps ! t) (low + segment_size) - (low + segment_size)"
      using car [OF t] sf(3) unfolding nth_ix [OF t]
      by (intro carried_next_mult [OF p0]) auto
    then show "ix' ! t = map (\<lambda>p. next_mult p (low + segment_size) - (low + segment_size)) ps ! t"
      using t by simp
  qed
  have Rprop: "k \<le> R" if "0 \<le> k" "k * k \<le> high" for k
    unfolding R_def using that high0(3) by (intro csqrt_ge) auto
  have n3: "odd n" "3 \<le> n" "low \<le> n"
    using next_odd_gt [of ph] by (simp_all add: n_def next_odd_odd next_odd_ge3 ph)
  have sieved: "\<forall>m. n \<le> m \<and> m \<le> high \<and> odd m \<longrightarrow> (sv' ! nat (m - low) \<longleftrightarrow> prime m)"
  proof (intro allI impI)
    fix m assume m: "n \<le> m \<and> m \<le> high \<and> odd m"
    then have m': "odd m" "3 \<le> m" "low \<le> m" "m \<le> high" using n3 by auto
    have "sv' ! nat (m - low) \<longleftrightarrow>
       \<not> (\<exists>t. t < length ps \<and> ix ! t \<le> m - low \<and> (2 * ps ! t) dvd (m - low - ix ! t))"
      using m' high0(5) by (intro each) auto
    also have "(\<exists>t. t < length ps \<and> ix ! t \<le> m - low \<and> (2 * ps ! t) dvd (m - low - ix ! t)) \<longleftrightarrow>
       (\<exists>p. prime p \<and> 3 \<le> p \<and> p \<le> R \<and> next_mult p low \<le> m \<and> (2 * p) dvd (m - next_mult p low))"
      (is "?A \<longleftrightarrow> ?B")
    proof
      assume ?A
      then obtain t where t: "t < length ps" "ix ! t \<le> m - low"
        "(2 * ps ! t) dvd (m - low - ix ! t)" by blast
      have e: "m - low - (next_mult (ps ! t) low - low) = m - next_mult (ps ! t) low" by simp
      from t show ?B
        using psP [OF nth_ps [OF t(1)]] unfolding nth_ix [OF t(1)] e
        by (intro exI [of _ "ps ! t"]) auto
    next
      assume ?B
      then obtain p where p: "prime p" "3 \<le> p" "p \<le> R" "next_mult p low \<le> m"
        "(2 * p) dvd (m - next_mult p low)" by blast
      then have "p \<in> set ps" by (simp add: ps_def)
      then obtain t where t: "t < length ps" "ps ! t = p" by (auto simp add: in_set_conv_nth)
      have e: "m - low - (next_mult p low - low) = m - next_mult p low" by simp
      show ?A using p(4,5) t nth_ix [OF t(1)] e by (intro exI [of _ t]) auto
    qed
    also have "\<dots> \<longleftrightarrow> \<not> prime m" using m' Rprop by (intro marked_iff_composite) auto
    finally show "sv' ! nat (m - low) \<longleftrightarrow> prime m" by simp
  qed
  have cnt: "0 \<le> count st" "count st \<le> n"
  proof -
    show "0 \<le> count st" unfolding i(8) by (simp add: base_count_def)
    have "int (length (filter prime [3..ph])) \<le> max 0 (ph - 3 + 1)" by (rule length_filter_upto)
    moreover have "ph < n" "3 \<le> n" using next_odd_gt [of ph] n3 by (simp_all add: n_def)
    ultimately show "count st \<le> n" unfolding i(8) base_count_def max_def
      by (auto split: if_splits)
  qed
  have c: "count_primes high low n sv' (count st) =
      ok (if n \<le> high then next_odd high else n, count st + int (length (filter prime [n..high])))"
    using n3 low(1,3) high0 len(2) cnt sieved
    by (intro count_primes_correct) auto
  have nn: "(if n \<le> high then next_odd high else n) = next_odd high"
    unfolding n_def using phh by (rule next_odd_mono_step)
  have cc: "count st + int (length (filter prime [n..high])) =
      base_count limit + int (length (filter prime [3..high]))"
  proof -
    have "filter prime [3..ph] @ filter prime [n..high] = filter prime [3..high]"
      unfolding n_def using phh by (rule filter_prime_next_odd)
    then have "length (filter prime [3..ph]) + length (filter prime [n..high]) =
        length (filter prime [3..high])" by (metis length_append)
    then show ?thesis unfolding i(8) by simp
  qed
  define st' where "st' = st\<lparr>count := base_count limit + int (length (filter prime [3..high])),
      n_v := next_odd high, sieve := sv', indexes := ix'\<rparr>"
  have "segment_sweep segment_size low high st = ok st'"
    unfolding segment_sweep_def
    by (simp add: i(1,5,6,7) s c [unfolded nn cc] st'_def)
  moreover have "seg_inv limit sqrt segment_size (low + segment_size) st'"
    using i(2-5) len(2) unfolding seg_inv_def
    by (simp add: st'_def ix' R_def high_def ps_def)
  ultimately show ?thesis unfolding high_def by blast
qed

lemma segment_correct:
  assumes lim: "0 \<le> limit" "limit < 2 ^ 63" and sq: "sqrt = root64 limit"
    and sz: "segment_size = max sqrt L1D_CACHE_SIZE"
    and low: "0 \<le> low" "low \<le> limit" "low + segment_size < 2 ^ 63"
    and inv: "seg_inv limit sqrt segment_size low st"
  shows "\<exists>st'. segment limit sqrt segment_size low st = ok st' \<and>
         seg_inv limit sqrt segment_size (low + segment_size) st'"
proof -
  from segment_init_correct [OF assms] obtain st1 where
    a: "segment_init limit sqrt segment_size low st = ok (min (low + segment_size - 1) limit, st1)"
    and m: "mid_inv limit sqrt segment_size low st1" by blast
  from segment_sweep_correct [OF lim sq sz low m] obtain st' where
    b: "segment_sweep segment_size low (min (low + segment_size - 1) limit) st1 = ok st'"
    and i: "seg_inv limit sqrt segment_size (low + segment_size) st'" by blast
  have "segment limit sqrt segment_size low st = ok st'"
    by (simp add: segment_def a b)
  with i show ?thesis by blast
qed

subsection \<open>The loop over the segments\<close>

lemma div_mult_le_int:
  fixes a b :: int
  assumes "0 < b"
  shows "a div b * b \<le> a"
proof -
  have "a div b * b + a mod b = a" by simp
  moreover have "0 \<le> a mod b" using assms by simp
  ultimately show ?thesis by linarith
qed

lemma multiple_below:
  fixes low limit s :: int
  assumes "0 < s" "s dvd low" "low \<le> limit"
  shows "low \<le> limit div s * s"
proof -
  from assms(2) obtain c where "low = s * c" by (rule dvdE)
  then have c: "low = c * s" by (simp add: mult.commute)
  have "c \<le> limit div s" using assms(1,3) unfolding c by (intro int_le_div) auto
  then have "c * s \<le> limit div s * s" using assms(1) by (intro mult_right_mono) auto
  then show ?thesis by (simp add: c)
qed

lemma multiple_above:
  fixes low limit s :: int
  assumes "0 < s" "s dvd low" "limit < low"
  shows "(limit div s + 1) * s \<le> low"
proof -
  from assms(2) obtain c where "low = s * c" by (rule dvdE)
  then have c: "low = c * s" by (simp add: mult.commute)
  have "limit div s + 1 \<le> c"
  proof (rule ccontr)
    assume "\<not> limit div s + 1 \<le> c"
    then have "c \<le> limit div s" by simp
    then have "c * s \<le> limit div s * s" using assms(1) by (intro mult_right_mono) auto
    also have "\<dots> \<le> limit" using assms(1) by (rule div_mult_le_int)
    finally show False using assms(3) c by simp
  qed
  then have "(limit div s + 1) * s \<le> c * s" using assms(1) by (intro mult_right_mono) auto
  then show ?thesis by (simp add: c)
qed

lemma count_final:
  assumes "0 \<le> limit"
  shows "base_count limit + int (length (filter prime [3..limit])) = prime_count limit"
proof (cases "2 \<le> limit")
  case True
  then show ?thesis by (simp add: prime_count_split base_count_def)
next
  case False
  then show ?thesis by (simp add: prime_count_small base_count_def)
qed

lemma segments_correct:
  assumes lim: "0 \<le> limit" "limit < 2 ^ 63" and sq: "sqrt = root64 limit"
    and sz: "segment_size = max sqrt L1D_CACHE_SIZE"
    and low: "0 \<le> low" "segment_size dvd low" "low < 2 ^ 63"
      "low \<le> (limit div segment_size + 1) * segment_size"
    and inv: "seg_inv limit sqrt segment_size low st"
  shows "segments limit sqrt segment_size low st =
     (if (limit div segment_size + 1) * segment_size < 2 ^ 63 then ok (prime_count limit)
      else fail SignedOverflow)"
  using low inv
proof (induction "nat (limit + 1 - low)" arbitrary: low st rule: less_induct)
  case less
  note sf = sizes_facts [OF lim sq sz]
  have spos: "0 < segment_size" using sf(3) by simp
  define top where "top = (limit div segment_size + 1) * segment_size"
  have top: "top = limit div segment_size * segment_size + segment_size"
    by (simp add: top_def algebra_simps)
  show ?case
  proof (cases "low \<le> limit")
    case False
    then have "limit < low" by simp
    with spos less.prems(2) have "top \<le> low" unfolding top_def by (intro multiple_above) auto
    with less.prems(3,4) have t: "top < 2 ^ 63" by (simp add: top_def)
    have "min (low - 1) limit = limit" using False by simp
    then have "count st = prime_count limit"
      using less.prems(5) count_final [OF lim(1)] by (simp add: seg_inv_def)
    moreover have "segments limit sqrt segment_size low st = ok (count st)"
      using False by (subst segments.simps) simp
    ultimately show ?thesis using t by (simp add: top_def)
  next
    case True
    have below: "low \<le> limit div segment_size * segment_size"
      using spos less.prems(2) True by (rule multiple_below)
    show ?thesis
    proof (cases "low + segment_size < 2 ^ 63")
      case False
      have "segment_init limit sqrt segment_size low st = fail SignedOverflow"
        using less.prems(1) spos False by (intro segment_init_overflow) auto
      then have "segments limit sqrt segment_size low st = fail SignedOverflow"
        using True by (subst segments.simps) (simp add: segment_def)
      moreover have "\<not> top < 2 ^ 63" using False below top by simp
      ultimately show ?thesis by (simp add: top_def)
    next
      case fit: True
      from segment_correct [OF lim sq sz less.prems(1) True fit less.prems(5)] obtain st'
        where s: "segment limit sqrt segment_size low st = ok st'"
        and i: "seg_inv limit sqrt segment_size (low + segment_size) st'" by blast
      have o: "i64 (low + segment_size) = Inr (low + segment_size)"
        using fit less.prems(1) spos by (intro i64_ok) auto
      have "segments limit sqrt segment_size (low + segment_size) st' =
         (if (limit div segment_size + 1) * segment_size < 2 ^ 63 then ok (prime_count limit)
          else fail SignedOverflow)"
      proof (rule less.hyps)
        show "nat (limit + 1 - (low + segment_size)) < nat (limit + 1 - low)"
          using True spos by simp
        show "0 \<le> low + segment_size" using less.prems(1) spos by simp
        show "segment_size dvd low + segment_size" using less.prems(2) by simp
        show "low + segment_size < 2 ^ 63" by (rule fit)
        show "low + segment_size \<le> (limit div segment_size + 1) * segment_size"
          using below top by (simp add: top_def)
        show "seg_inv limit sqrt segment_size (low + segment_size) st'" by (rule i)
      qed
      moreover have "segments limit sqrt segment_size low st =
          segments limit sqrt segment_size (low + segment_size) st'"
        using True by (subst segments.simps) (simp add: s o)
      ultimately show ?thesis by simp
    qed
  qed
qed

lemma initial_inv:
  assumes lim: "0 \<le> limit" "limit < 2 ^ 63" and sq: "sqrt = root64 limit"
    and sz: "segment_size = max sqrt L1D_CACHE_SIZE"
  shows "seg_inv limit sqrt segment_size 0 (initial limit sqrt segment_size)"
proof -
  note sf = sizes_facts [OF lim sq sz]
  have m: "min (0 - 1) limit = - 1" using lim(1) by simp
  have r: "root64 (- 1) = 0" by (rule root64_neg) simp
  have n: "next_odd 0 = 3" "next_odd (- 1) = 3" by (simp_all add: next_odd_def)
  have ns: "\<not> struck 3 x" for x by (auto simp add: struck_def)
  have b: "base_sieved sqrt 3 (replicate (nat (sqrt + 1)) True)"
    using sf(1) by (auto simp add: base_sieved_def ns)
  show ?thesis
    unfolding seg_inv_def m r n
    using b sf(3) by (simp add: initial_def base_count_def)
qed

lemma sizing_ok: "0 \<le> limit \<Longrightarrow> sizing limit = Inr (root64 limit, max (root64 limit) L1D_CACHE_SIZE)"
  by (simp add: sizing_def sqrt_i64_def)

lemma sizing_negative: "limit < 0 \<Longrightarrow> sizing limit = Inl InvalidCast"
  by (simp add: sizing_def sqrt_i64_def)

lemma segmented_sieve_result:
  assumes "0 \<le> limit" "limit < 2 ^ 63"
  shows "segmented_sieve limit =
     (if fits limit then ok (prime_count limit) else fail SignedOverflow)"
proof -
  define sqrt where "sqrt = root64 limit"
  define segment_size where "segment_size = max sqrt L1D_CACHE_SIZE"
  note sf = sizes_facts [OF assms sqrt_def segment_size_def]
  have "0 \<le> limit div segment_size" using assms(1) sf(3) by (simp add: pos_imp_zdiv_nonneg_iff)
  then have "0 \<le> (limit div segment_size + 1) * segment_size" using sf(3) by simp
  then have "segments limit sqrt segment_size 0 (initial limit sqrt segment_size) =
     (if (limit div segment_size + 1) * segment_size < 2 ^ 63 then ok (prime_count limit)
      else fail SignedOverflow)"
    using initial_inv [OF assms sqrt_def segment_size_def]
    by (intro segments_correct [OF assms sqrt_def segment_size_def]) auto
  then show ?thesis
    using assms(1) by (simp add: segmented_sieve_def sizing_ok fits_def sqrt_def segment_size_def)
qed

lemma segmented_sieve_negative: "limit < 0 \<Longrightarrow> segmented_sieve limit = fail InvalidCast"
  by (simp add: segmented_sieve_def sizing_negative)

lemma fits_below:
  assumes "0 \<le> limit" "limit \<le> 9223372033817775308"
  shows "fits limit"
proof -
  define s where "s = max (root64 limit) L1D_CACHE_SIZE"
  have lim: "limit < 2 ^ 63" using assms(2) by simp
  note sf = sizes_facts [OF assms(1) lim refl s_def]
  have "limit div s * s \<le> limit" using sf(3) by (intro div_mult_le_int) auto
  moreover have "(limit div s + 1) * s = limit div s * s + s" by (simp add: algebra_simps)
  ultimately have "(limit div s + 1) * s < 9223372036854775808" using sf(4) assms(2) by linarith
  then show ?thesis by (simp add: fits_def s_def)
qed

lemma fits_max: "\<not> fits (2 ^ 63 - 1)"
  by code_simp

subsection \<open>The state in which a segment is marked: the observers agree with the loop\<close>

lemma after_eq_ok: "after m f = ok v \<Longrightarrow> \<exists>x. m = ok x \<and> f x = ok v"
  by (auto simp add: after_def ok_def split: option.splits sum.splits)

lemma segments_through:
  assumes "run_segments limit sqrt segment_size k = ok st" "0 \<le> segment_size"
    "k = 0 \<or> ((int k - 1) * segment_size \<le> limit \<and> int k * segment_size < 2 ^ 63)"
  shows "segments limit sqrt segment_size 0 (initial limit sqrt segment_size) =
         segments limit sqrt segment_size (int k * segment_size) st"
  using assms
proof (induction k arbitrary: st)
  case 0
  then show ?case by simp
next
  case (Suc k)
  from Suc.prems(1) obtain st0 where r: "run_segments limit sqrt segment_size k = ok st0"
    and s: "segment limit sqrt segment_size (int k * segment_size) st0 = ok st"
    by (auto dest: after_eq_ok)
  from Suc.prems(3) have le: "int k * segment_size \<le> limit"
    and lt: "(int k + 1) * segment_size < 2 ^ 63" by (simp_all add: algebra_simps)
  have k0: "0 \<le> int k * segment_size" using Suc.prems(2) by simp
  have "int k * segment_size \<le> (int k + 1) * segment_size"
    using Suc.prems(2) by (simp add: algebra_simps)
  then have ltk: "int k * segment_size < 2 ^ 63" using lt by linarith
  have "(int k - 1) * segment_size \<le> int k * segment_size"
    using Suc.prems(2) by (simp add: algebra_simps)
  then have "(int k - 1) * segment_size \<le> limit" using le by linarith
  then have "k = 0 \<or> ((int k - 1) * segment_size \<le> limit \<and> int k * segment_size < 2 ^ 63)"
    using ltk by (intro disjI2 conjI)
  from Suc.IH [OF r Suc.prems(2) this]
  have "segments limit sqrt segment_size 0 (initial limit sqrt segment_size) =
         segments limit sqrt segment_size (int k * segment_size) st0" .
  also have "\<dots> = segments limit sqrt segment_size (int k * segment_size + segment_size) st"
  proof -
    have "(int k + 1) * segment_size = int k * segment_size + segment_size"
      by (simp add: algebra_simps)
    with lt have "int k * segment_size + segment_size < 9223372036854775808" by simp
    moreover have "0 \<le> int k * segment_size + segment_size" using k0 Suc.prems(2) by linarith
    ultimately have "i64 (int k * segment_size + segment_size) = Inr (int k * segment_size + segment_size)"
      by (intro i64_ok') linarith+
    then show ?thesis using le by (subst segments.simps) (simp add: s)
  qed
  also have "int k * segment_size + segment_size = int (Suc k) * segment_size"
    by (simp add: algebra_simps)
  finally show ?case .
qed

lemma run_segments_inv:
  assumes lim: "0 \<le> limit" "limit < 2 ^ 63" and sq: "sqrt = root64 limit"
    and sz: "segment_size = max sqrt L1D_CACHE_SIZE"
    and k: "k = 0 \<or> ((int k - 1) * segment_size \<le> limit \<and> int k * segment_size < 2 ^ 63)"
  shows "\<exists>st. run_segments limit sqrt segment_size k = ok st \<and>
           seg_inv limit sqrt segment_size (int k * segment_size) st"
  using k
proof (induction k)
  case 0
  show ?case using initial_inv [OF lim sq sz] by simp
next
  case (Suc k)
  note sf = sizes_facts [OF lim sq sz]
  from Suc.prems have le: "int k * segment_size \<le> limit"
    and lt: "int k * segment_size + segment_size < 2 ^ 63" by (simp_all add: algebra_simps)
  have k0: "0 \<le> int k * segment_size" using sf(3) by simp
  have "(int k - 1) * segment_size \<le> int k * segment_size"
    using sf(3) by (simp add: algebra_simps)
  then have "(int k - 1) * segment_size \<le> limit" using le by linarith
  moreover have "int k * segment_size < 2 ^ 63" using lt sf(3) by simp
  ultimately have "k = 0 \<or> ((int k - 1) * segment_size \<le> limit \<and> int k * segment_size < 2 ^ 63)"
    by (intro disjI2 conjI)
  from Suc.IH [OF this] obtain st0 where r: "run_segments limit sqrt segment_size k = ok st0"
    and i: "seg_inv limit sqrt segment_size (int k * segment_size) st0" by blast
  from segment_correct [OF lim sq sz k0 le lt i] obtain st
    where s: "segment limit sqrt segment_size (int k * segment_size) st0 = ok st"
    and i': "seg_inv limit sqrt segment_size (int k * segment_size + segment_size) st" by blast
  have "int k * segment_size + segment_size = int (Suc k) * segment_size"
    by (simp add: algebra_simps)
  with i' have "seg_inv limit sqrt segment_size (int (Suc k) * segment_size) st" by simp
  moreover have "run_segments limit sqrt segment_size (Suc k) = ok st" by (simp add: r s)
  ultimately show ?case by blast
qed

lemma before_marking_correct:
  assumes lim: "0 \<le> limit" "limit < 2 ^ 63"
    and sz: "segment_size = max (root64 limit) L1D_CACHE_SIZE"
    and low: "low = int k * segment_size" "low \<le> limit" "low + segment_size < 2 ^ 63"
  shows "\<exists>st. before_marking limit k = ok (min (low + segment_size - 1) limit, st) \<and>
           mid_inv limit (root64 limit) segment_size low st"
proof -
  note sf = sizes_facts [OF lim refl sz]
  have "(int k - 1) * segment_size \<le> int k * segment_size"
    using sf(3) by (simp add: algebra_simps)
  then have "(int k - 1) * segment_size \<le> limit" using low(1,2) by linarith
  moreover have "int k * segment_size < 2 ^ 63" using low(1,3) sf(3) by simp
  ultimately have "k = 0 \<or> ((int k - 1) * segment_size \<le> limit \<and> int k * segment_size < 2 ^ 63)"
    by (intro disjI2 conjI)
  from run_segments_inv [OF lim refl sz this] obtain st0
    where r: "run_segments limit (root64 limit) segment_size k = ok st0"
    and i: "seg_inv limit (root64 limit) segment_size low st0" unfolding low(1) by blast
  have k0: "0 \<le> low" using sf(3) by (simp add: low(1))
  from segment_init_correct [OF lim refl sz k0 low(2,3) i] obtain st
    where s: "segment_init limit (root64 limit) segment_size low st0 =
        ok (min (low + segment_size - 1) limit, st)"
    and m: "mid_inv limit (root64 limit) segment_size low st" by blast
  have "before_marking limit k = ok (min (low + segment_size - 1) limit, st)"
    using lim(1) r s by (simp add: before_marking_def sizing_ok sz [symmetric] low(1))
  with m show ?thesis by blast
qed

section \<open>The claims\<close>

subsection \<open>Evaluations and corollaries the claims share\<close>

lemma fits_imp_int64:
  assumes "fits limit"
  shows "limit < 2 ^ 63"
proof -
  define s where "s = max (root64 limit) L1D_CACHE_SIZE"
  have spos: "0 < s" by (simp add: s_def L1D_CACHE_SIZE_def)
  have "limit div s * s + limit mod s = limit" by simp
  moreover have "limit mod s < s" using spos by simp
  moreover have "(limit div s + 1) * s = limit div s * s + s" by (simp add: algebra_simps)
  moreover have "(limit div s + 1) * s < 9223372036854775808"
    using assms by (simp add: fits_def s_def)
  ultimately have "limit < 9223372036854775808" by linarith
  then show ?thesis by simp
qed

lemma segmented_sieve_fits:
  assumes "0 \<le> limit" "fits limit"
  shows "segmented_sieve limit = ok (prime_count limit)"
  using segmented_sieve_result [OF assms(1) fits_imp_int64 [OF assms(2)]] assms(2) by simp

lemma root64_top:
  assumes "9223372030926249001 \<le> x" "x < 2 ^ 63"
  shows "root64 x = 3037000499"
proof -
  have "(3037000499::int) * 3037000499 \<le> x" using assms(1) by simp
  then have "3037000499 \<le> root64 x" using assms(2) by (intro csqrt_ge) simp_all
  moreover have "root64 x \<le> 3037000499" using assms by (intro csqrt_le_max) simp_all
  ultimately show ?thesis by simp
qed

text \<open>A limit below one that fits also fits: up to \<open>2 ^ 63 - 1 - 3037000499\<close> every limit
  does, and above that the segment size is \<open>3037000499\<close> throughout.\<close>

lemma fits_antimono:
  assumes "0 \<le> a" "a \<le> b" "fits b"
  shows "fits a"
proof (cases "a \<le> 9223372033817775308")
  case True
  with assms(1) show ?thesis by (rule fits_below)
next
  case False
  have b63: "b < 2 ^ 63" using assms(3) by (rule fits_imp_int64)
  then have a63: "a < 2 ^ 63" using assms(2) by simp
  have ra: "root64 a = 3037000499" using False a63 by (intro root64_top) simp_all
  have rb: "root64 b = 3037000499" using False assms(2) b63 by (intro root64_top) simp_all
  have "a div 3037000499 \<le> b div 3037000499" using assms(2) by (intro zdiv_mono1) simp_all
  then have "(a div 3037000499 + 1) * 3037000499 \<le> (b div 3037000499 + 1) * 3037000499"
    by simp
  moreover have "(b div 3037000499 + 1) * 3037000499 < 2 ^ 63"
    using assms(3) by (simp add: fits_def rb L1D_CACHE_SIZE_def)
  ultimately have "(a div 3037000499 + 1) * 3037000499 < 2 ^ 63" by linarith
  then show ?thesis by (simp add: fits_def ra L1D_CACHE_SIZE_def)
qed

lemma fits_small: "fits 2" "fits 10" "fits 100" "fits 1000" "fits 30"
  by (rule fits_below; simp)+

lemma prime_count_1000: "prime_count 1000 = 168"
  by code_simp

lemma prime_count_30: "prime_count 30 = 10"
  by code_simp

lemma root64_examples: "root64 100 = 10" "root64 40000 = 200" "root64 1000000 = 1000"
  by code_simp+

lemma primes_200: "filter prime [3..200] ! 1 = 5" "1 < length (filter prime [3..200])"
  by code_simp+

lemma primes_10: "filter prime [3..10] = [3, 5, 7]"
  by code_simp

lemma offsets_example: "next_mult 5 32768 - 32768 = 7" "claimed_offset 5 32768 = 2"
  "next_mult 5 0 - 0 = 25"
  by code_simp+

lemma isqrt_example: "isqrt 1000000000000 = 1000000"
  by code_simp

subsection \<open>C1: the count is the number of primes\<close>

text \<open>
  Claim C1: for every non-negative limit, \<open>segmented_sieve\<close> computes the number of primes
  up to the limit; the count is 1 for 2, 4 for 10, 25 for 100 and 168 for 1000.

  The program computes in \<^verbatim>\<open>int64_t\<close>, and the claim holds where that arithmetic does not
  overflow: for every limit from 0 on that \<open>fits\<close> (every limit up to
  \<open>2 ^ 63 - 1 - 3037000499\<close> does, lemma \<open>fits_below\<close>) the program returns
  \<open>prime_count limit\<close>, and the four counts are as claimed. At the largest limit,
  \<open>2 ^ 63 - 1\<close>, the condition \<^verbatim>\<open>low <= limit\<close> can never fail, and the run ends in the
  overflow of \<^verbatim>\<open>low + segment_size\<close>.
\<close>

theorem segmented_sieve_counts_primes:
  "(0 \<le> limit \<longrightarrow> fits limit \<longrightarrow> segmented_sieve limit = ok (prime_count limit)) \<and>
   segmented_sieve 2 = ok 1 \<and> segmented_sieve 10 = ok 4 \<and>
   segmented_sieve 100 = ok 25 \<and> segmented_sieve 1000 = ok 168"
proof (intro conjI impI)
  show "segmented_sieve limit = ok (prime_count limit)" if "0 \<le> limit" "fits limit"
    using that by (rule segmented_sieve_fits)
  show "segmented_sieve 2 = ok 1"
    using segmented_sieve_fits [OF _ fits_small(1)] by (simp add: prime_count_examples)
  show "segmented_sieve 10 = ok 4"
    using segmented_sieve_fits [OF _ fits_small(2)] by (simp add: prime_count_examples)
  show "segmented_sieve 100 = ok 25"
    using segmented_sieve_fits [OF _ fits_small(3)] by (simp add: prime_count_examples)
  show "segmented_sieve 1000 = ok 168"
    using segmented_sieve_fits [OF _ fits_small(4)] by (simp add: prime_count_1000)
qed

theorem segmented_sieve_counts_primes_witness:
  "(0::int) \<le> 30 \<and> fits 30 \<and> segmented_sieve 30 = ok 10"
  using segmented_sieve_counts_primes [of 30] fits_small(5) by (simp add: prime_count_30)

theorem segmented_sieve_max_counterexample:
  "segmented_sieve (2 ^ 63 - 1) \<noteq> ok (prime_count (2 ^ 63 - 1))"
proof -
  have "segmented_sieve (2 ^ 63 - 1) = fail SignedOverflow"
    using segmented_sieve_result [of "2 ^ 63 - 1"] fits_max by simp
  then show ?thesis by simp
qed

subsection \<open>C2: the sieving primes and their offsets when a segment is marked\<close>

text \<open>
  Claim C2: when the marking loop of a segment \<open>[low, high]\<close> starts, the list of sieving
  primes holds exactly the odd primes up to the integer square root of \<open>high\<close>, and the
  offset of the prime \<open>p\<close> is the next multiple of \<open>p\<close> that is at least
  \<open>max (p * p) low\<close>, relative to \<open>low\<close>.

  The code steps by \<open>2 * p\<close>, so the offset is the next \<^emph>\<open>odd\<close> multiple of \<open>p\<close> from
  \<open>p * p\<close> on that is at least \<open>low\<close> (\<open>next_mult\<close>), not the next multiple: in the
  second segment of the run to 40000 the offset of 5 is 7 (for 32775), where the claim
  says 2 (for 32770). The list holds the odd primes up to \<^verbatim>\<open>sqrt_high\<close>, the root the
  program computes, which is the integer square root of \<open>high\<close> for \<open>high\<close> below
  \<open>2 ^ 52\<close>. The theorem is about every segment the program marks: one whose start
  \<open>low = k * segment_size\<close> is at most \<open>limit\<close> and whose bound \<open>low + segment_size\<close> does
  not overflow.
\<close>

theorem sieving_primes_at_marking:
  assumes "0 \<le> limit" "limit < 2 ^ 63"
    and "segment_size = max (sqrt_trunc (to_double limit)) L1D_CACHE_SIZE"
    and "low = int k * segment_size" "low \<le> limit" "low + segment_size < 2 ^ 63"
    and "high = min (low + segment_size - 1) limit"
  shows "\<exists>st. before_marking limit k = ok (high, st) \<and>
           primes st = filter prime [3..sqrt_trunc (to_double high)] \<and>
           (high < 2 ^ 52 \<longrightarrow> sqrt_trunc (to_double high) = isqrt high) \<and>
           length (indexes st) = length (primes st) \<and>
           (\<forall>i<length (primes st). indexes st ! i = next_mult (primes st ! i) low - low)"
proof -
  from before_marking_correct [OF assms(1-6)] obtain st
    where b: "before_marking limit k = ok (high, st)"
    and m: "mid_inv limit (root64 limit) segment_size low st" unfolding assms(7) by blast
  have s: "32768 \<le> segment_size" using assms(3) by (simp add: L1D_CACHE_SIZE_def)
  then have "0 \<le> int k * segment_size" by simp
  then have "0 \<le> low" by (simp only: assms(4))
  then have h0: "0 \<le> high" using assms(1) s unfolding assms(7) by simp
  from m have p: "primes st = filter prime [3..root64 high]"
    and i: "indexes st = map (\<lambda>p. next_mult p low - low) (primes st)"
    by (simp_all add: mid_inv_def assms(7))
  have "indexes st ! i = next_mult (primes st ! i) low - low" if "i < length (primes st)" for i
    using that by (subst i) simp
  moreover have "length (indexes st) = length (primes st)" by (subst i) simp
  moreover have "high < 2 ^ 52 \<longrightarrow> root64 high = isqrt high"
    using h0 by (auto intro: csqrt_small)
  ultimately show ?thesis using b p by blast
qed

theorem sieving_primes_at_marking_witness:
  "\<exists>st. before_marking 100 0 = ok (100, st) \<and> primes st = [3, 5, 7] \<and>
     length (indexes st) = 3 \<and> indexes st ! 1 = 25"
proof -
  have "\<exists>st. before_marking 100 0 = ok (100, st) \<and>
           primes st = filter prime [3..sqrt_trunc (to_double 100)] \<and>
           (100 < (2::int) ^ 52 \<longrightarrow> sqrt_trunc (to_double 100) = isqrt 100) \<and>
           length (indexes st) = length (primes st) \<and>
           (\<forall>i<length (primes st). indexes st ! i = next_mult (primes st ! i) 0 - 0)"
    by (rule sieving_primes_at_marking [where segment_size = 32768])
       (simp_all add: root64_examples L1D_CACHE_SIZE_def)
  then obtain st where st: "before_marking 100 0 = ok (100, st)"
    "primes st = [3, 5, 7]" "length (indexes st) = length (primes st)"
    "\<forall>i<length (primes st). indexes st ! i = next_mult (primes st ! i) 0 - 0"
    unfolding root64_examples primes_10 by blast
  from st(4) have "indexes st ! 1 = next_mult 5 0 - 0" by (simp add: st(2))
  then have "indexes st ! 1 = 25" by (simp only: offsets_example(3))
  with st(1-3) show ?thesis by auto
qed

theorem offsets_step_twice_counterexample:
  "\<not> (\<forall>high st i. before_marking 40000 1 = ok (high, st) \<longrightarrow> i < length (primes st) \<longrightarrow>
        indexes st ! i = claimed_offset (primes st ! i) 32768)"
proof
  assume a: "\<forall>high st i. before_marking 40000 1 = ok (high, st) \<longrightarrow> i < length (primes st) \<longrightarrow>
        indexes st ! i = claimed_offset (primes st ! i) 32768"
  have "\<exists>st. before_marking 40000 1 = ok (40000, st) \<and>
           mid_inv 40000 (root64 40000) 32768 32768 st"
    using before_marking_correct [of 40000 32768 32768 1]
    by (simp add: root64_examples L1D_CACHE_SIZE_def)
  then obtain st where b: "before_marking 40000 1 = ok (40000, st)"
    and m: "mid_inv 40000 (root64 40000) 32768 32768 st" by blast
  have hi: "min (32768 + 32768 - 1) (40000::int) = 40000" by simp
  from m have p: "primes st = filter prime [3..200]"
    and i: "indexes st = map (\<lambda>p. next_mult p 32768 - 32768) (filter prime [3..200])"
    unfolding mid_inv_def hi root64_examples by blast+
  have "indexes st ! 1 = next_mult (filter prime [3..200] ! 1) 32768 - 32768"
    unfolding i by (rule nth_map [OF primes_200(2)])
  then have seven: "indexes st ! 1 = 7" by (simp only: primes_200(1) offsets_example(1))
  have "1 < length (primes st)" unfolding p by (rule primes_200(2))
  with a b have "indexes st ! 1 = claimed_offset (primes st ! 1) 32768" by blast
  then have "indexes st ! 1 = 2" by (simp only: p primes_200(1) offsets_example(2))
  with seven show False by simp
qed

subsection \<open>C3: the sizing phase\<close>

text \<open>
  Claim C3: for every non-negative limit the sizing phase produces the exact integer square
  root of the limit and \<open>segment_size = max sqrt_limit 32768\<close>, so that the segment is
  never narrower than the integer square root.

  The root is computed in \<^verbatim>\<open>double\<close>. It is the exact integer square root \<open>isqrt limit\<close>
  for every limit below \<open>2 ^ 52\<close>, and the integer square root or one more for any
  non-negative \<^verbatim>\<open>int64_t\<close>; the segment size is the maximum as claimed and never below
  \<open>isqrt limit\<close>. For \<open>limit = 2 ^ 54 - 1\<close> the conversion to \<^verbatim>\<open>double\<close> rounds the limit
  up to \<open>2 ^ 54\<close>, whose root is \<open>2 ^ 27 = 134217728\<close>, one more than the integer square
  root 134217727 of the limit.
\<close>

theorem sizing_result:
  assumes "0 \<le> limit" "limit < 2 ^ 63"
  shows "\<exists>sqrt segment_size. sizing limit = Inr (sqrt, segment_size) \<and>
           isqrt limit \<le> sqrt \<and> sqrt \<le> isqrt limit + 1 \<and>
           (limit < 2 ^ 52 \<longrightarrow> sqrt = isqrt limit) \<and>
           segment_size = max sqrt 32768 \<and> isqrt limit \<le> segment_size"
proof -
  have "isqrt limit * isqrt limit \<le> limit" using isqrt_bounds [OF assms(1)] by simp
  then have ge: "isqrt limit \<le> root64 limit"
    using assms(2) isqrt_nonneg [of limit] by (intro csqrt_ge) auto
  have le: "root64 limit \<le> isqrt limit + 1" using assms by (rule csqrt_le)
  have "limit < 2 ^ 52 \<longrightarrow> root64 limit = isqrt limit"
    using assms(1) by (auto intro: csqrt_small)
  with ge le show ?thesis
    using assms(1) by (simp add: sizing_ok L1D_CACHE_SIZE_def)
qed

theorem sizing_result_witness:
  "\<exists>sqrt segment_size. sizing 1000000000000 = Inr (sqrt, segment_size) \<and>
     sqrt = 1000000 \<and> segment_size = 1000000"
  using sizing_result [of 1000000000000] by (auto simp add: isqrt_example)

theorem sizing_sqrt_inexact_counterexample:
  "sizing (2 ^ 54 - 1) = Inr (134217728, 134217728) \<and> isqrt (2 ^ 54 - 1) = 134217727 \<and>
   (2 ^ 54 - 1 :: int) < 134217728 * 134217728"
  by code_simp

subsection \<open>C4: limits below 2\<close>

text \<open>
  Claim C4: for every limit below 2, every negative limit included, the count is 0.

  For the limits 0 and 1 the count is 0. For a negative limit the program takes the
  square root of a negative number: the result is a NaN, and its conversion to
  \<^verbatim>\<open>int64_t\<close> in line 25 is undefined, before any count is produced.
\<close>

theorem no_primes_below_two:
  assumes "0 \<le> limit" "limit < 2"
  shows "segmented_sieve limit = ok 0"
proof -
  have "fits limit" using assms by (intro fits_below) auto
  then show ?thesis
    using segmented_sieve_fits [OF assms(1)] assms(2) by (simp add: prime_count_small)
qed

theorem no_primes_below_two_witness: "segmented_sieve 1 = ok 0"
  using no_primes_below_two [of 1] by simp

theorem negative_limit_counterexample: "segmented_sieve (- 1) = fail InvalidCast"
  by (rule segmented_sieve_negative) simp

subsection \<open>C5: the marking loop\<close>

text \<open>
  Claim C5: for each sieving prime \<open>p\<close> at index \<open>i\<close> with carried offset \<open>off\<close>, the
  marking loop marks false every \<open>2 * p\<close>-th position of the working sieve from \<open>off\<close> on
  while the position is inside the segment, and stores \<open>off_final - segment_size\<close> back as
  the offset, a (negative or) small value that is the starting offset in the next segment.

  The theorem is about the loop of lines 64--70 on any vectors it can meet: offsets that
  are not negative, primes that are positive and below \<open>2 ^ 32\<close>. A position \<open>x\<close> of the
  segment is false afterwards exactly when it was false before or is \<open>off + m * (2 * p)\<close>
  for one of the primes. The value stored is \<open>off_final - segment_size\<close>, where
  \<open>off_final\<close> is the first of \<open>off\<close>, \<open>off + 2 * p\<close>, ... that is at least
  \<open>segment_size\<close>; it is never negative, and below \<open>2 * p\<close> whenever \<open>off\<close> was inside the
  segment.
\<close>

theorem marking_loop_effect:
  assumes "length ix = length ps" "int (length sv) = segment_size"
    "segment_size < 2 ^ 62"
    "\<forall>i<length ps. 0 < ps ! i \<and> ps ! i \<le> 3037000499 \<and> 0 \<le> ix ! i \<and> ix ! i < 2 ^ 63"
  shows "\<exists>ix' sv'. sieve_segment segment_size ps 0 ix sv = ok (ix', sv') \<and>
     length ix' = length ix \<and> length sv' = length sv \<and>
     (\<forall>x. 0 \<le> x \<and> x < segment_size \<longrightarrow>
        (sv' ! nat x \<longleftrightarrow> sv ! nat x \<and>
           \<not> (\<exists>i<length ps. ix ! i \<le> x \<and> (2 * ps ! i) dvd (x - ix ! i)))) \<and>
     (\<forall>i<length ps. \<exists>off_final.
        ix ! i \<le> off_final \<and> (2 * ps ! i) dvd (off_final - ix ! i) \<and>
        segment_size \<le> off_final \<and>
        (if ix ! i < segment_size then off_final - 2 * ps ! i < segment_size
         else off_final = ix ! i) \<and>
        ix' ! i = off_final - segment_size \<and> 0 \<le> ix' ! i \<and>
        (ix ! i < segment_size \<longrightarrow> ix' ! i < 2 * ps ! i))"
proof -
  have s0: "0 \<le> segment_size" using assms(2) by simp
  have "\<exists>ix' sv'. sieve_segment segment_size ps 0 ix sv = ok (ix', sv') \<and>
     length ix' = length ix \<and> length sv' = length sv \<and>
     (\<forall>t<length ps. if t < 0 then ix' ! t = ix ! t
        else carried (2 * ps ! t) segment_size (ix ! t) (ix' ! t)) \<and>
     (\<forall>x. 0 \<le> x \<and> x < int (length sv) \<longrightarrow>
        (sv' ! nat x \<longleftrightarrow> sv ! nat x \<and>
          \<not> (\<exists>t. 0 \<le> t \<and> t < length ps \<and> ix ! t \<le> x \<and> x < segment_size \<and>
                 (2 * ps ! t) dvd (x - ix ! t))))"
    using assms s0 by (intro sieve_segment_correct) auto
  then obtain ix' sv' where r: "sieve_segment segment_size ps 0 ix sv = ok (ix', sv')"
    and len: "length ix' = length ix" "length sv' = length sv"
    and car: "\<And>t. t < length ps \<Longrightarrow> carried (2 * ps ! t) segment_size (ix ! t) (ix' ! t)"
    and each: "\<And>x. 0 \<le> x \<Longrightarrow> x < segment_size \<Longrightarrow>
        (sv' ! nat x \<longleftrightarrow> sv ! nat x \<and>
          \<not> (\<exists>t<length ps. ix ! t \<le> x \<and> (2 * ps ! t) dvd (x - ix ! t)))"
    using assms(2) by auto
  have fin: "\<exists>off_final.
        ix ! i \<le> off_final \<and> (2 * ps ! i) dvd (off_final - ix ! i) \<and>
        segment_size \<le> off_final \<and>
        (if ix ! i < segment_size then off_final - 2 * ps ! i < segment_size
         else off_final = ix ! i) \<and>
        ix' ! i = off_final - segment_size \<and> 0 \<le> ix' ! i \<and>
        (ix ! i < segment_size \<longrightarrow> ix' ! i < 2 * ps ! i)" if "i < length ps" for i
    using car [OF that]
    by (intro exI [of _ "ix' ! i + segment_size"]) (auto simp add: carried_def split: if_splits)
  from r len each fin show ?thesis by blast
qed

theorem marking_loop_effect_witness:
  "\<exists>ix' sv'. sieve_segment 10 [3] 0 [9] (replicate 10 True) = ok (ix', sv') \<and>
     length ix' = 1 \<and> length sv' = 10 \<and> 0 \<le> ix' ! 0 \<and> ix' ! 0 < 6 \<and> \<not> sv' ! 9 \<and> sv' ! 8"
proof -
  define ps :: "int list" where "ps = [3]"
  define ix :: "int list" where "ix = [9]"
  define sv where "sv = replicate 10 True"
  have "\<exists>ix' sv'. sieve_segment 10 ps 0 ix sv = ok (ix', sv') \<and>
     length ix' = length ix \<and> length sv' = length sv \<and>
     (\<forall>x. 0 \<le> x \<and> x < 10 \<longrightarrow>
        (sv' ! nat x \<longleftrightarrow> sv ! nat x \<and>
           \<not> (\<exists>i<length ps. ix ! i \<le> x \<and> (2 * ps ! i) dvd (x - ix ! i)))) \<and>
     (\<forall>i<length ps. \<exists>off_final.
        ix ! i \<le> off_final \<and> (2 * ps ! i) dvd (off_final - ix ! i) \<and>
        10 \<le> off_final \<and>
        (if ix ! i < 10 then off_final - 2 * ps ! i < 10 else off_final = ix ! i) \<and>
        ix' ! i = off_final - 10 \<and> 0 \<le> ix' ! i \<and>
        (ix ! i < 10 \<longrightarrow> ix' ! i < 2 * ps ! i))"
    by (rule marking_loop_effect) (simp_all add: ps_def ix_def sv_def)
  then obtain ix' sv' where r: "sieve_segment 10 ps 0 ix sv = ok (ix', sv')"
    and len: "length ix' = length ix" "length sv' = length sv"
    and each: "\<And>x. 0 \<le> x \<Longrightarrow> x < 10 \<Longrightarrow>
        (sv' ! nat x \<longleftrightarrow> sv ! nat x \<and>
           \<not> (\<exists>i<length ps. ix ! i \<le> x \<and> (2 * ps ! i) dvd (x - ix ! i)))"
    and fin: "\<And>i. i < length ps \<Longrightarrow> 0 \<le> ix' ! i \<and> (ix ! i < 10 \<longrightarrow> ix' ! i < 2 * ps ! i)"
    by blast
  have f0: "0 \<le> ix' ! 0" "ix' ! 0 < 6" using fin [of 0] by (simp_all add: ps_def ix_def)
  have "\<not> sv' ! nat 9" using each [of 9] by (simp add: ps_def ix_def sv_def)
  moreover have "sv' ! nat 8" using each [of 8] by (simp add: ps_def ix_def sv_def)
  ultimately show ?thesis using r len f0 by (auto simp add: ps_def ix_def sv_def)
qed

subsection \<open>C6: every access is in range\<close>

text \<open>
  Claim C6: for every non-negative limit every array access of the run is within bounds.

  Every \<^verbatim>\<open>operator[]\<close> of the program is a \<open>get\<close> or a \<open>put\<close> of the model, which end the
  run in \<open>OutOfRange\<close> when the index is outside the vector. For every non-negative
  \<^verbatim>\<open>int64_t\<close> limit the run does not end so, and it does end.
\<close>

theorem accesses_in_range:
  assumes "0 \<le> limit" "limit < 2 ^ 63"
  shows "segmented_sieve limit \<noteq> fail OutOfRange \<and> segmented_sieve limit \<noteq> None"
  using segmented_sieve_result [OF assms] by (simp add: ok_def fail_def)

theorem accesses_in_range_witness:
  "segmented_sieve 100 \<noteq> fail OutOfRange \<and> segmented_sieve 100 \<noteq> None"
  using accesses_in_range [of 100] by simp

subsection \<open>C7: the offsets are not negative\<close>

text \<open>
  Claim C7: every entry of the offset table \<^verbatim>\<open>indexes\<close> is non-negative when the marking
  loop of a segment starts, so that marking never starts at a negative position.

  The theorem is about every segment the program marks, as in C2: the marking loop is
  reached, in a state whose offsets are all at least 0.
\<close>

theorem offsets_nonnegative:
  assumes "0 \<le> limit" "limit < 2 ^ 63"
    and "segment_size = max (sqrt_trunc (to_double limit)) L1D_CACHE_SIZE"
    and "low = int k * segment_size" "low \<le> limit" "low + segment_size < 2 ^ 63"
  shows "\<exists>high st. before_marking limit k = ok (high, st) \<and> (\<forall>x\<in>set (indexes st). 0 \<le> x)"
proof -
  from before_marking_correct [OF assms(1-6)] obtain st
    where b: "before_marking limit k = ok (min (low + segment_size - 1) limit, st)"
    and m: "mid_inv limit (root64 limit) segment_size low st" by blast
  from m have i: "indexes st = map (\<lambda>p. next_mult p low - low) (primes st)"
    and p: "primes st = filter prime [3..root64 (min (low + segment_size - 1) limit)]"
    by (simp_all add: mid_inv_def)
  have "0 \<le> x" if "x \<in> set (indexes st)" for x
  proof -
    from that obtain q where q: "q \<in> set (primes st)" "x = next_mult q low - low"
      by (subst (asm) i) auto
    from q(1) have "0 < q" by (simp add: p)
    from next_mult_props(1) [OF this, of low] show ?thesis by (simp add: q(2))
  qed
  with b show ?thesis by blast
qed

theorem offsets_nonnegative_witness:
  "\<exists>high st. before_marking 1000000 3 = ok (high, st) \<and> (\<forall>x\<in>set (indexes st). 0 \<le> x)"
  by (intro offsets_nonnegative [where segment_size = 32768 and low = 98304])
     (simp_all add: L1D_CACHE_SIZE_def root64_examples)

subsection \<open>C8: the count is monotone\<close>

text \<open>
  Claim C8: for non-negative bounds \<open>a \<le> b\<close>, the count produced for \<open>a\<close> is at most the
  count produced for \<open>b\<close>.

  Whenever the run for \<open>b\<close> produces a count, the run for every \<open>a\<close> from 0 to \<open>b\<close>
  produces one too, and it is at most the count for \<open>b\<close>; the run for \<open>b\<close> does produce a
  count for every \<open>b\<close> up to \<open>2 ^ 63 - 1 - 3037000499\<close>. For \<open>a = 10\<close> and \<open>b = 2 ^ 63 - 1\<close>
  there is a count for \<open>a\<close> and none for \<open>b\<close>, whose run ends in the signed overflow of
  \<^verbatim>\<open>low + segment_size\<close>.
\<close>

theorem count_monotone:
  assumes "0 \<le> a" "a \<le> b" "b < 2 ^ 63"
  shows "(\<forall>cb. segmented_sieve b = ok cb \<longrightarrow> (\<exists>ca. segmented_sieve a = ok ca \<and> ca \<le> cb)) \<and>
         (b \<le> 9223372033817775308 \<longrightarrow>
            (\<exists>ca cb. segmented_sieve a = ok ca \<and> segmented_sieve b = ok cb \<and> ca \<le> cb))"
proof -
  have b0: "0 \<le> b" using assms(1,2) by simp
  have both: "segmented_sieve a = ok (prime_count a) \<and> segmented_sieve b = ok (prime_count b) \<and>
      prime_count a \<le> prime_count b" if f: "fits b"
  proof -
    have "fits a" using assms(1,2) f by (rule fits_antimono)
    then have "segmented_sieve a = ok (prime_count a)"
      using assms(1) by (intro segmented_sieve_fits)
    moreover have "segmented_sieve b = ok (prime_count b)" using b0 f by (rule segmented_sieve_fits)
    moreover have "prime_count a \<le> prime_count b" using assms(2) by (rule prime_count_mono)
    ultimately show ?thesis by simp
  qed
  have "\<exists>ca. segmented_sieve a = ok ca \<and> ca \<le> cb" if r: "segmented_sieve b = ok cb" for cb
  proof -
    have f: "fits b" using segmented_sieve_result [OF b0 assms(3)] r by (simp split: if_splits)
    from both [OF f] r show ?thesis by simp
  qed
  moreover have "\<exists>ca cb. segmented_sieve a = ok ca \<and> segmented_sieve b = ok cb \<and> ca \<le> cb"
    if "b \<le> 9223372033817775308"
  proof -
    have "fits b" using b0 that by (rule fits_below)
    from both [OF this] show ?thesis by blast
  qed
  ultimately show ?thesis by blast
qed

theorem count_monotone_witness:
  "segmented_sieve 10 = ok 4 \<and> segmented_sieve 100 = ok 25 \<and> (4::int) \<le> 25"
proof -
  have a: "segmented_sieve 10 = ok 4"
    using segmented_sieve_fits [OF _ fits_small(2)] by (simp add: prime_count_examples)
  have b: "segmented_sieve 100 = ok 25"
    using segmented_sieve_fits [OF _ fits_small(3)] by (simp add: prime_count_examples)
  have "\<exists>ca. segmented_sieve 10 = ok ca \<and> ca \<le> 25"
    using count_monotone [of 10 100] b by simp
  with a b show ?thesis by simp
qed

theorem count_past_overflow_counterexample:
  "(0::int) \<le> 10 \<and> (10::int) \<le> 2 ^ 63 - 1 \<and>
   segmented_sieve 10 = ok 4 \<and> segmented_sieve (2 ^ 63 - 1) = fail SignedOverflow"
proof -
  have "segmented_sieve 10 = ok 4"
    using segmented_sieve_fits [OF _ fits_small(2)] by (simp add: prime_count_examples)
  moreover have "segmented_sieve (2 ^ 63 - 1) = fail SignedOverflow"
    using segmented_sieve_result [of "2 ^ 63 - 1"] fits_max by simp
  ultimately show ?thesis by simp
qed

subsection \<open>C9: the run returns\<close>

text \<open>
  Claim C9: for every non-negative limit the algorithm runs to completion: the loop over
  \<^verbatim>\<open>low\<close> ends once \<^verbatim>\<open>low > limit\<close>, and every inner loop is bounded.

  The run returns a count exactly for the limits from 0 on that \<open>fits\<close>, among them every
  limit up to \<open>2 ^ 63 - 1 - 3037000499\<close>. For \<open>limit = 2 ^ 63 - 1\<close> no \<^verbatim>\<open>int64_t\<close> value of
  \<^verbatim>\<open>low\<close> is greater than the limit: the loop is left only through the signed overflow
  of \<^verbatim>\<open>low + segment_size\<close>, which is undefined behaviour.
\<close>

theorem sieve_returns:
  assumes "0 \<le> limit" "limit < 2 ^ 63"
  shows "((\<exists>c. segmented_sieve limit = ok c) \<longleftrightarrow> fits limit) \<and>
         (limit \<le> 9223372033817775308 \<longrightarrow> fits limit)"
proof -
  have "(\<exists>c. segmented_sieve limit = ok c) \<longleftrightarrow> fits limit"
    using segmented_sieve_result [OF assms] by simp
  moreover have "limit \<le> 9223372033817775308 \<longrightarrow> fits limit"
    using assms(1) fits_below by blast
  ultimately show ?thesis by simp
qed

theorem sieve_returns_witness: "\<exists>c. segmented_sieve 1000000000 = ok c"
  using sieve_returns [of 1000000000] by simp

theorem sieve_overflows_counterexample:
  "segmented_sieve (2 ^ 63 - 1) = fail SignedOverflow"
  using segmented_sieve_result [of "2 ^ 63 - 1"] fits_max by simp

subsection \<open>C10: repeated calls\<close>

text \<open>
  Claim C10 (two invocations with the same limit produce identical counts, and no state is
  carried from one call to the next) is not stated as a theorem. Here a call is the
  application of the function \<open>segmented_sieve\<close> to its limit, and that equal limits give
  equal results holds of every function, whatever the program does. What the claim
  asserts is a fact of the storage of the \<^verbatim>\<open>C++\<close> program: every variable of
  \<^verbatim>\<open>segmented_sieve\<close> (lines 25 to 37) is a local constructed with an initial value at
  each call, and the only object outside the function, \<^verbatim>\<open>L1D_CACHE_SIZE\<close>, is
  \<^verbatim>\<open>const\<close>. The translation relies on this and cannot test it.
\<close>

end
